theory Spec2Isabelle
  imports Main "HOL-Library.Multiset" "HOL-Library.AList"
begin

section \<open>Data model of the playlist sort bot (src/index.ts)\<close>

text \<open>
  \<^verbatim>\<open>interface PlaylistItem { media: Media; uid: number; temp: boolean; queueby: string; }\<close>
  The media descriptor is never inspected by the sorting code, so it is a type parameter.
  The uid is a JavaScript number holding an integer assigned by the server; the code
  itself uses the value \<open>-1\<close> for "no previous uid", so uids are integers here.
\<close>

record 'm PlaylistItem =
  media :: 'm
  uid :: int
  temp :: bool
  queueby :: string

text \<open>
  The part of \<^verbatim>\<open>interface Context\<close> that the queue handlers read or write.
  \<open>moveVideoRefCounter\<close> is a \<^verbatim>\<open>Map<string, true>\<close>; only lookup, set and delete are used
  on it, so it is a partial function. Config, Socket, botSessionId, readyHandleMessages
  and userRankMap are not touched by the handlers modelled below.
\<close>

record 'm Context =
  VideoQueue :: "'m PlaylistItem list"
  loginSuccess :: bool
  moveVideoRefCounter :: "string \<rightharpoonup> bool"
  isAutoSortEnabled :: bool

text \<open>
  \<^verbatim>\<open>interface MoveVideoResponse { from: number; after: number; }\<close>. The handler reads
  the notification in three ways: \<^verbatim>\<open>JSON.stringify(response)\<close>, \<^verbatim>\<open>response.from\<close> and
  \<^verbatim>\<open>response.after\<close>. The first depends on which properties the object has and in which
  order, so the notification is the list of its own properties in the order
  \<^verbatim>\<open>JSON.stringify\<close> visits them, each holding an integer. Reading a property gives its
  value, or \<^verbatim>\<open>undefined\<close> (\<open>None\<close>) when the object has no such property.
\<close>

type_synonym MoveVideoResponse = "(string \<times> int) list"

definition from_uid :: "MoveVideoResponse \<Rightarrow> int option" where
  "from_uid response = map_of response ''from''"

definition after_uid :: "MoveVideoResponse \<Rightarrow> int option" where
  "after_uid response = map_of response ''after''"

text \<open>\<^verbatim>\<open>interface QueueResponse { item : PlaylistItem, after: string | number }\<close>\<close>

datatype after_ref = AfterString string | AfterNumber int

record 'm QueueResponse =
  item :: "'m PlaylistItem"
  after :: after_ref

text \<open>
  What a handler does to the outside: the socket events it emits (only \<open>moveMedia\<close> and
  \<open>requestPlaylist\<close> leave the queue code) and the line \<open>onErrorMsg\<close> writes with
  \<^verbatim>\<open>console.error\<close>. The logging that wraps every emit is left out.
\<close>

datatype effect =
    EmitMoveMedia int int   \<comment> \<open>\<^verbatim>\<open>emit("moveMedia", {from, after})\<close>\<close>
  | EmitRequestPlaylist     \<comment> \<open>\<^verbatim>\<open>emit("requestPlaylist")\<close>\<close>
  | ConsoleError string

text \<open>
  A handler either returns, with the new context and the effects in order, or throws.
  A thrown exception is not caught anywhere in the program, so the run ends there; the
  model keeps the exception and the effects that happened before it.
\<close>

datatype error =
    TypeError       \<comment> \<open>property read on \<^verbatim>\<open>undefined\<close>\<close>
  | Error string    \<comment> \<open>\<^verbatim>\<open>throw new Error(msg)\<close>\<close>

type_synonym 'm outcome = "(error \<times> effect list) + ('m Context \<times> effect list)"

section \<open>Array primitives of JavaScript\<close>

text \<open>\<^verbatim>\<open>Array.prototype.findIndex\<close>: the first index whose element satisfies the predicate, else \<open>-1\<close>.\<close>

fun findIndex :: "('a \<Rightarrow> bool) \<Rightarrow> 'a list \<Rightarrow> int" where
  "findIndex P [] = - 1"
| "findIndex P (x # xs) =
     (if P x then 0 else (let r = findIndex P xs in if r = - 1 then - 1 else r + 1))"

text \<open>
  \<^verbatim>\<open>Array.prototype.splice(start, deleteCount, ...items)\<close>: a negative start counts from the
  end (clamped at 0), a start beyond the end is the end, and the delete count is clamped
  to what is left. The result is the removed elements and the array afterwards.
\<close>

definition splice :: "int \<Rightarrow> nat \<Rightarrow> 'a list \<Rightarrow> 'a list \<Rightarrow> 'a list \<times> 'a list" where
  "splice start deleteCount items xs =
     (let len = int (length xs);
          s = nat (if start < 0 then max (len + start) 0 else min start len);
          dc = min deleteCount (length xs - s)
      in (take dc (drop s xs), take s xs @ items @ drop (s + dc) xs))"

section \<open>The fingerprint of a move command\<close>

text \<open>
  \<^verbatim>\<open>JSON.stringify\<close> of an integer (below \<open>10^21\<close> in absolute value, where JavaScript
  prints all the digits): the decimal digits, with a minus sign for a negative number.
\<close>

function natToString :: "nat \<Rightarrow> string" where
  "natToString n =
     (if n < 10 then [char_of (48 + n)]
      else natToString (n div 10) @ [char_of (48 + n mod 10)])"
  by pat_completeness auto
termination
  by (relation "measure id") auto

declare natToString.simps [simp del]

definition numberToString :: "int \<Rightarrow> string" where
  "numberToString x =
     (if x < 0 then CHR ''-'' # natToString (nat (- x)) else natToString (nat x))"

text \<open>
  \<^verbatim>\<open>JSON.stringify\<close> of a property name: between double quotes, with a backslash before
  a double quote and before a backslash, the short escapes for backspace, tab, line feed,
  form feed and carriage return, and \<open>u\<close> with four hexadecimal digits for the other
  characters below space.
  The table gives what follows the backslash.
\<close>

definition jsonEscapes :: "(char \<times> string) list" where
  "jsonEscapes =
     [(CHR 0x22, [CHR 0x22]),
      (CHR 0x5C, [CHR 0x5C]),
      (CHR 0x00, ''u0000''),
      (CHR 0x01, ''u0001''),
      (CHR 0x02, ''u0002''),
      (CHR 0x03, ''u0003''),
      (CHR 0x04, ''u0004''),
      (CHR 0x05, ''u0005''),
      (CHR 0x06, ''u0006''),
      (CHR 0x07, ''u0007''),
      (CHR 0x08, ''b''),
      (CHR 0x09, ''t''),
      (CHR 0x0A, ''n''),
      (CHR 0x0B, ''u000b''),
      (CHR 0x0C, ''f''),
      (CHR 0x0D, ''r''),
      (CHR 0x0E, ''u000e''),
      (CHR 0x0F, ''u000f''),
      (CHR 0x10, ''u0010''),
      (CHR 0x11, ''u0011''),
      (CHR 0x12, ''u0012''),
      (CHR 0x13, ''u0013''),
      (CHR 0x14, ''u0014''),
      (CHR 0x15, ''u0015''),
      (CHR 0x16, ''u0016''),
      (CHR 0x17, ''u0017''),
      (CHR 0x18, ''u0018''),
      (CHR 0x19, ''u0019''),
      (CHR 0x1A, ''u001a''),
      (CHR 0x1B, ''u001b''),
      (CHR 0x1C, ''u001c''),
      (CHR 0x1D, ''u001d''),
      (CHR 0x1E, ''u001e''),
      (CHR 0x1F, ''u001f'')]"

definition quoteJSONString :: "string \<Rightarrow> string" where
  "quoteJSONString s =
     CHR 0x22 #
     concat (map (\<lambda>c. case map_of jsonEscapes c of None \<Rightarrow> [c] | Some e \<Rightarrow> CHR 0x5C # e) s) @
     [CHR 0x22]"

text \<open>
  \<^verbatim>\<open>JSON.stringify\<close> of an object whose properties hold integers: the properties in
  order, each as name, colon, value, separated by commas, between braces.
\<close>

fun joinComma :: "string list \<Rightarrow> string" where
  "joinComma [] = []"
| "joinComma [x] = x"
| "joinComma (x # y # ys) = x @ '','' @ joinComma (y # ys)"

definition JSON_stringify :: "(string \<times> int) list \<Rightarrow> string" where
  "JSON_stringify properties =
     ''{'' @ joinComma (map (\<lambda>(k, v). quoteJSONString k @ '':'' @ numberToString v) properties) @ ''}''"

text \<open>\<^verbatim>\<open>JSON.stringify(data)\<close> for \<^verbatim>\<open>data = { from: f, after: a }\<close>.\<close>

definition stringifyMove :: "int \<Rightarrow> int \<Rightarrow> string" where
  "stringifyMove f a = JSON_stringify [(''from'', f), (''after'', a)]"

section \<open>sortCytube\<close>

text \<open>
  Lines 501 to 503: \<^verbatim>\<open>if (context.isAutoSortEnabled) { context.moveVideoRefCounter.set(
  JSON.stringify(data), true); }\<close>, for \<^verbatim>\<open>data = { from: sortedUid, after: prevSortedUid }\<close>.
\<close>

definition recordRef :: "bool \<Rightarrow> (string \<rightharpoonup> bool) \<Rightarrow> int \<Rightarrow> int \<Rightarrow> (string \<rightharpoonup> bool)" where
  "recordRef enabled refs fromUid afterUid =
     (if enabled then refs(stringifyMove fromUid afterUid \<mapsto> True) else refs)"

text \<open>
  The loop \<^verbatim>\<open>for (let i = 0; i < sortedPlaylist.length; i++)\<close> of \<open>sortCytube\<close>. The
  second argument is what is left of \<open>sortedPlaylist\<close> from index \<open>i\<close> on; the state is the
  working copy \<open>toSortPlaylist\<close>, the map \<open>moveVideoRefCounter\<close> and the effects so far;
  the fingerprint is stored first, then \<open>moveMedia\<close> is emitted.
  \<^verbatim>\<open>toSortPlaylist[i].uid\<close> throws when \<open>i\<close> is past the end of the working copy.
  \<^verbatim>\<open>splice(videoIndexToMove, 1)\<close> on the working copy, which is not empty there, always
  removes one element (\<open>-1\<close> removes the last one), so \<^verbatim>\<open>[0]\<close> of its result is an item.
\<close>

fun sortCytube_loop ::
  "bool \<Rightarrow> 'm PlaylistItem list \<Rightarrow> nat \<Rightarrow> int
    \<Rightarrow> 'm PlaylistItem list \<times> (string \<rightharpoonup> bool) \<times> effect list
    \<Rightarrow> (error \<times> effect list) + ('m PlaylistItem list \<times> (string \<rightharpoonup> bool) \<times> effect list)"
where
  "sortCytube_loop enabled [] i prevSortedUid st = Inr st"
| "sortCytube_loop enabled (sorted_i # rest) i prevSortedUid (toSortPlaylist, refs, out) =
     (if length toSortPlaylist \<le> i then Inl (TypeError, out)
      else
        let sortedUid = uid sorted_i;
            toSortUid = uid (toSortPlaylist ! i)
        in if prevSortedUid \<noteq> - 1 \<and> sortedUid \<noteq> toSortUid then
             let refs' = recordRef enabled refs sortedUid prevSortedUid;
                 out' = out @ [EmitMoveMedia sortedUid prevSortedUid];
                 videoIndexToMove = findIndex (\<lambda>video. uid video = sortedUid) toSortPlaylist;
                 (removed, toSort1) = splice videoIndexToMove 1 [] toSortPlaylist
             in (case removed of
                   [] \<Rightarrow> Inl (TypeError, out')
                 | videoToMove # _ \<Rightarrow>
                     sortCytube_loop enabled rest (Suc i) sortedUid
                       (snd (splice (int i) 0 [videoToMove] toSort1), refs', out'))
           else sortCytube_loop enabled rest (Suc i) sortedUid (toSortPlaylist, refs, out))"

definition sortCytube :: "'m Context \<Rightarrow> 'm PlaylistItem list \<Rightarrow> 'm outcome" where
  "sortCytube context sortedPlaylistOriginal =
     (case sortCytube_loop (isAutoSortEnabled context) sortedPlaylistOriginal 0 (- 1)
             (VideoQueue context, moveVideoRefCounter context, []) of
        Inl e \<Rightarrow> Inl e
      | Inr (toSortPlaylist, refs, out) \<Rightarrow>
          Inr (context\<lparr>moveVideoRefCounter := refs, VideoQueue := sortedPlaylistOriginal\<rparr>, out))"

text \<open>
  The same loop once more, this time listing in program order what each pass does to
  \<open>moveVideoRefCounter\<close> and to the socket: line 502 (\<open>StoreRef\<close>, only when auto-sort is
  enabled) comes before line 504 (\<open>EmitStep\<close>). The list ends where the loop ends or throws.
\<close>

datatype step = StoreRef string | EmitStep effect


text \<open>What a list of steps emits, and what it leaves in \<open>moveVideoRefCounter\<close>.\<close>

fun emitted_by :: "step list \<Rightarrow> effect list" where
  "emitted_by [] = []"
| "emitted_by (EmitStep e # steps) = e # emitted_by steps"
| "emitted_by (StoreRef k # steps) = emitted_by steps"

fun stored_by :: "step list \<Rightarrow> (string \<rightharpoonup> bool) \<Rightarrow> (string \<rightharpoonup> bool)" where
  "stored_by [] refs = refs"
| "stored_by (StoreRef k # steps) refs = stored_by steps (refs(k \<mapsto> True))"
| "stored_by (EmitStep e # steps) refs = stored_by steps refs"

section \<open>Relocation of one item\<close>

text \<open>
  Lines 303 to 307 of \<open>onMoveVideoCallback\<close>: take the item with uid \<open>from\<close> out of the
  queue and put it back just after the item with uid \<open>after\<close>. Either value may be
  \<^verbatim>\<open>undefined\<close> (\<open>None\<close>), which no uid is equal to. When no item has uid \<open>from\<close>,
  \<^verbatim>\<open>VideoQueue[-1]\<close> is \<^verbatim>\<open>undefined\<close>, the last item is spliced out and \<^verbatim>\<open>undefined\<close> is
  spliced in: the result is then \<open>None\<close>, a queue that is no longer a list of items.
\<close>

definition relocate ::
  "int option \<Rightarrow> int option \<Rightarrow> 'm PlaylistItem list \<Rightarrow> 'm PlaylistItem list option"
where
  "relocate fromUid afterUid queue =
     (let fromIndex = findIndex (\<lambda>video. Some (uid video) = fromUid) queue;
          video = (if 0 \<le> fromIndex then Some (queue ! nat fromIndex) else None);
          queue1 = snd (splice fromIndex 1 [] queue);
          afterIndex = findIndex (\<lambda>video. Some (uid video) = afterUid) queue1
      in (case video of
            None \<Rightarrow> None
          | Some v \<Rightarrow> Some (snd (splice (afterIndex + 1) 0 [v] queue1))))"

text \<open>The move commands among the effects, and their application one at a time, in order.\<close>

fun moves_of :: "effect list \<Rightarrow> (int \<times> int) list" where
  "moves_of [] = []"
| "moves_of (EmitMoveMedia f a # es) = (f, a) # moves_of es"
| "moves_of (e # es) = moves_of es"

fun apply_moves :: "(int \<times> int) list \<Rightarrow> 'm PlaylistItem list \<Rightarrow> 'm PlaylistItem list option" where
  "apply_moves [] queue = Some queue"
| "apply_moves ((f, a) # cs) queue =
     (case relocate (Some f) (Some a) queue of
        None \<Rightarrow> None
      | Some queue' \<Rightarrow> apply_moves cs queue')"

section \<open>roundRobinSortVideos\<close>

text \<open>
  \<open>userToVideoListMap\<close> is a JavaScript \<open>Map\<close>, which iterates in the order the keys were
  first set: an association list, where \<^const>\<open>AList.update\<close> overwrites the value of a
  key in place and appends a new key at the end, and \<^const>\<open>map_of\<close> is \<^verbatim>\<open>get\<close>.

  First \<^verbatim>\<open>forEach\<close>: every submitter gets an empty array.
\<close>

definition initUserMap :: "'m PlaylistItem list \<Rightarrow> (string \<times> 'm PlaylistItem list) list" where
  "initUserMap queue = fold (\<lambda>video m. AList.update (queueby video) [] m) queue []"

text \<open>
  Second \<^verbatim>\<open>forEach\<close>: \<^verbatim>\<open>userToVideoListMap.get(video.queueby)!.push(video)\<close>, which throws
  when the key is missing.
\<close>

fun pushVideos ::
  "'m PlaylistItem list \<Rightarrow> (string \<times> 'm PlaylistItem list) list
    \<Rightarrow> error + (string \<times> 'm PlaylistItem list) list"
where
  "pushVideos [] m = Inr m"
| "pushVideos (video # videos) m =
     (case map_of m (queueby video) of
        None \<Rightarrow> Inl TypeError
      | Some l \<Rightarrow> pushVideos videos (AList.update (queueby video) (l @ [video]) m))"

text \<open>
  \<^verbatim>\<open>Math.max(...lengths)\<close>. Of no lengths at all it is \<open>-Infinity\<close>, and the loop
  \<^verbatim>\<open>for (let _ = 0; _ < maxVideos; _++)\<close> then runs as often as for 0: not at all.
\<close>

definition maxVideos_of :: "(string \<times> 'm PlaylistItem list) list \<Rightarrow> nat" where
  "maxVideos_of m = fold max (map (\<lambda>v. length (snd v)) m) 0"

text \<open>
  The inner loop \<^verbatim>\<open>for (const userName of userNames)\<close>: \<^verbatim>\<open>videos.shift()\<close> takes the
  first video off the submitter's array, inside the map, and \<^verbatim>\<open>sorted.push\<close> appends it (the array \<open>sorted\<close> is \<open>sorted'\<close> here).
\<close>

fun roundRobin_users ::
  "string list \<Rightarrow> (string \<times> 'm PlaylistItem list) list \<times> 'm PlaylistItem list
    \<Rightarrow> error + (string \<times> 'm PlaylistItem list) list \<times> 'm PlaylistItem list"
where
  "roundRobin_users [] st = Inr st"
| "roundRobin_users (userName # userNames) (m, sorted') =
     (case map_of m userName of
        None \<Rightarrow> Inl TypeError
      | Some [] \<Rightarrow> roundRobin_users userNames (m, sorted')
      | Some (video # videos) \<Rightarrow>
          roundRobin_users userNames (AList.update userName videos m, sorted' @ [video]))"

text \<open>The outer loop, \<open>maxVideos\<close> times over all the user names.\<close>

fun roundRobin_rounds ::
  "nat \<Rightarrow> string list \<Rightarrow> (string \<times> 'm PlaylistItem list) list \<times> 'm PlaylistItem list
    \<Rightarrow> error + (string \<times> 'm PlaylistItem list) list \<times> 'm PlaylistItem list"
where
  "roundRobin_rounds 0 userNames st = Inr st"
| "roundRobin_rounds (Suc n) userNames st =
     (case roundRobin_users userNames st of
        Inl e \<Rightarrow> Inl e
      | Inr st' \<Rightarrow> roundRobin_rounds n userNames st')"

definition roundRobinSortVideos :: "'m Context \<Rightarrow> error + 'm PlaylistItem list" where
  "roundRobinSortVideos context =
     (case pushVideos (VideoQueue context) (initUserMap (VideoQueue context)) of
        Inl e \<Rightarrow> Inl e
      | Inr userToVideoListMap \<Rightarrow>
          (let maxVideos = maxVideos_of userToVideoListMap;
               userNames = map fst userToVideoListMap
           in case roundRobin_rounds maxVideos userNames (userToVideoListMap, []) of
                Inl e \<Rightarrow> Inl e
              | Inr (m, sorted') \<Rightarrow> Inr sorted'))"

section \<open>The handlers\<close>

text \<open>
  The two lines that end every queue handler:
  \<^verbatim>\<open>const sortedVideos = roundRobinSortVideos(context); sortCytube(context, sortedVideos)\<close>.
\<close>

definition resort :: "'m Context \<Rightarrow> 'm outcome" where
  "resort context =
     (case roundRobinSortVideos context of
        Inl e \<Rightarrow> Inl (e, [])
      | Inr sortedVideos \<Rightarrow> sortCytube context sortedVideos)"

definition onPlaylistCallback :: "'m Context \<Rightarrow> 'm PlaylistItem list \<Rightarrow> 'm outcome" where
  "onPlaylistCallback context response =
     (if \<not> loginSuccess context then Inr (context, [])
      else
        let context1 = context\<lparr>VideoQueue := response\<rparr>
        in if \<not> 0 < length (VideoQueue context1) then Inr (context1, [])
           else resort (context1\<lparr>moveVideoRefCounter := Map.empty\<rparr>))"

text \<open>
  The fingerprint looked up is \<^verbatim>\<open>JSON.stringify(response)\<close>, of the notification as it
  came. When the queue holds \<^verbatim>\<open>undefined\<close> after the two splices,
  \<open>roundRobinSortVideos\<close> throws at \<^verbatim>\<open>video.queueby\<close>.
\<close>

definition onMoveVideoCallback :: "'m Context \<Rightarrow> MoveVideoResponse \<Rightarrow> 'm outcome" where
  "onMoveVideoCallback context response =
     (if \<not> isAutoSortEnabled context then Inr (context, [])
      else
        let stringified = JSON_stringify response;
            alreadyMoved = moveVideoRefCounter context stringified
        in if alreadyMoved = Some True then
             Inr (context\<lparr>moveVideoRefCounter :=
                    (moveVideoRefCounter context)(stringified := None)\<rparr>, [])
           else
             (case relocate (from_uid response) (after_uid response) (VideoQueue context) of
                None \<Rightarrow> Inl (TypeError, [])
              | Some queue \<Rightarrow> resort (context\<lparr>VideoQueue := queue\<rparr>)))"

definition onDeleteCallback :: "'m Context \<Rightarrow> int \<Rightarrow> 'm outcome" where
  "onDeleteCallback context response_uid =
     (if \<not> isAutoSortEnabled context then Inr (context, [])
      else
        let deleteIndex = findIndex (\<lambda>video. uid video = response_uid) (VideoQueue context)
        in resort (context\<lparr>VideoQueue := snd (splice deleteIndex 1 [] (VideoQueue context))\<rparr>))"

text \<open>
  \<^verbatim>\<open>video.uid === response.after\<close> is false whenever \<open>after\<close> is a string.
\<close>

definition onQueueCallback :: "'m Context \<Rightarrow> 'm QueueResponse \<Rightarrow> 'm outcome" where
  "onQueueCallback context response =
     (let queue =
        (if after response = AfterString ''prepend'' then item response # VideoQueue context
         else
           let index = findIndex (\<lambda>video. AfterNumber (uid video) = after response)
                         (VideoQueue context)
           in snd (splice (index + 1) 0 [item response] (VideoQueue context)))
      in resort (context\<lparr>VideoQueue := queue\<rparr>))"

definition ForceSortVideoQueue :: "'m Context \<Rightarrow> 'm outcome" where
  "ForceSortVideoQueue context = Inr (context, [EmitRequestPlaylist])"

subsection \<open>onErrorMsg\<close>

text \<open>
  \<^verbatim>\<open>String.prototype.toLowerCase\<close> on the letters A to Z (messages are taken to be
  ASCII), and \<^verbatim>\<open>String.prototype.includes\<close>.
\<close>

definition toLowerChar :: "char \<Rightarrow> char" where
  "toLowerChar c =
     (case map_of (zip ''ABCDEFGHIJKLMNOPQRSTUVWXYZ'' ''abcdefghijklmnopqrstuvwxyz'') c of
        None \<Rightarrow> c
      | Some l \<Rightarrow> l)"

definition toLowerCase :: "string \<Rightarrow> string" where
  "toLowerCase s = map toLowerChar s"

fun includes_str :: "string \<Rightarrow> string \<Rightarrow> bool" where
  "includes_str [] sub = (sub = [])"
| "includes_str (c # cs) sub = (take (length sub) (c # cs) = sub \<or> includes_str cs sub)"

definition criticalErrors :: "string list" where
  "criticalErrors =
     [''Invalid channel name'',
      ''blocked anonymous users'',
      ''Unable to join channel'',
      ''Channel could not be loaded'',
      ''Invalid login'']"

definition onErrorMsg :: "'m Context \<Rightarrow> string \<Rightarrow> 'm outcome" where
  "onErrorMsg context msg =
     (let isCritialerror =
            list_ex (\<lambda>error. includes_str (toLowerCase msg) (toLowerCase error)) criticalErrors
      in if isCritialerror then Inl (Error msg, [])
         else Inr (context, [ConsoleError msg]))"

section \<open>Notions used to state the properties\<close>

text \<open>
  Two characters are the same letter when they are equal or are the capital and the small
  form of one of the 26 letters. A message contains a phrase case-insensitively when some
  window of the message agrees with the phrase position by position, up to that.
\<close>

definition letter_cases :: "(char \<times> char) list" where
  "letter_cases =
     [(CHR ''A'', CHR ''a''),
      (CHR ''B'', CHR ''b''),
      (CHR ''C'', CHR ''c''),
      (CHR ''D'', CHR ''d''),
      (CHR ''E'', CHR ''e''),
      (CHR ''F'', CHR ''f''),
      (CHR ''G'', CHR ''g''),
      (CHR ''H'', CHR ''h''),
      (CHR ''I'', CHR ''i''),
      (CHR ''J'', CHR ''j''),
      (CHR ''K'', CHR ''k''),
      (CHR ''L'', CHR ''l''),
      (CHR ''M'', CHR ''m''),
      (CHR ''N'', CHR ''n''),
      (CHR ''O'', CHR ''o''),
      (CHR ''P'', CHR ''p''),
      (CHR ''Q'', CHR ''q''),
      (CHR ''R'', CHR ''r''),
      (CHR ''S'', CHR ''s''),
      (CHR ''T'', CHR ''t''),
      (CHR ''U'', CHR ''u''),
      (CHR ''V'', CHR ''v''),
      (CHR ''W'', CHR ''w''),
      (CHR ''X'', CHR ''x''),
      (CHR ''Y'', CHR ''y''),
      (CHR ''Z'', CHR ''z'')]"

definition same_letter :: "char \<Rightarrow> char \<Rightarrow> bool" where
  "same_letter a b \<longleftrightarrow> a = b \<or> (a, b) \<in> set letter_cases \<or> (b, a) \<in> set letter_cases"

definition contains_ci :: "string \<Rightarrow> string \<Rightarrow> bool" where
  "contains_ci msg phrase =
     (\<exists>i \<in> {0 ..< Suc (length msg)}. i + length phrase \<le> length msg \<and>
        (\<forall>j \<in> {0 ..< length phrase}. same_letter (msg ! (i + j)) (phrase ! j)))"


text \<open>
  The submitters in the order they are first met in the queue, the videos of one
  submitter in queue order, and the round-robin order written out: round \<open>k\<close> takes the
  \<open>k\<close>-th video of every submitter that has one, submitters in first-met order.
\<close>

definition userNames_of :: "'m PlaylistItem list \<Rightarrow> string list" where
  "userNames_of queue =
     fold (\<lambda>video ks. if queueby video \<in> set ks then ks else ks @ [queueby video]) queue []"

definition videos_of :: "string \<Rightarrow> 'm PlaylistItem list \<Rightarrow> 'm PlaylistItem list" where
  "videos_of userName queue = filter (\<lambda>video. queueby video = userName) queue"

definition round_of :: "nat \<Rightarrow> (string \<times> 'm PlaylistItem list) list \<Rightarrow> 'm PlaylistItem list" where
  "round_of k m = concat (map (\<lambda>(u, l). take 1 (drop k l)) m)"

definition rounds_of :: "nat \<Rightarrow> (string \<times> 'm PlaylistItem list) list \<Rightarrow> 'm PlaylistItem list" where
  "rounds_of n m = concat (map (\<lambda>k. round_of k m) [0 ..< n])"

definition groups_of :: "'m PlaylistItem list \<Rightarrow> (string \<times> 'm PlaylistItem list) list" where
  "groups_of queue = map (\<lambda>u. (u, videos_of u queue)) (userNames_of queue)"


text \<open>Items and contexts for the concrete runs below.\<close>

definition mkItem :: "int \<Rightarrow> string \<Rightarrow> unit PlaylistItem" where
  "mkItem u s = \<lparr>media = (), uid = u, temp = False, queueby = s\<rparr>"

definition mkContext :: "unit PlaylistItem list \<Rightarrow> bool \<Rightarrow> unit Context" where
  "mkContext queue enabled =
     \<lparr>VideoQueue = queue, loginSuccess = True, moveVideoRefCounter = Map.empty,
      isAutoSortEnabled = enabled\<rparr>"


section \<open>Array primitives: facts\<close>

lemma findIndex_miss: "\<forall>x \<in> set xs. \<not> P x \<Longrightarrow> findIndex P xs = - 1"
  by (induction xs) auto

lemma findIndex_ge: "- 1 \<le> findIndex P xs"
  by (induction xs) (auto simp: Let_def)

lemma findIndex_hit:
  "\<forall>x \<in> set A. \<not> P x \<Longrightarrow> P t \<Longrightarrow> findIndex P (A @ t # B) = int (length A)"
  by (induction A) (auto simp: Let_def)

lemma splice_remove_at:
  "splice (int (length A)) 1 [] (A @ t # B) = ([t], A @ B)"
  by (simp add: splice_def Let_def)

lemma splice_insert_at:
  "splice (int (length A)) 0 [v] (A @ B) = ([], A @ v # B)"
  by (simp add: splice_def Let_def)

lemma distinct_uid_before:
  assumes "distinct (map uid (xs @ t # ys))"
  shows "\<forall>x \<in> set xs. uid x \<noteq> uid t"
proof -
  have "uid t \<notin> uid ` set xs" using assms by simp
  then show ?thesis by (metis imageI)
qed

lemma relocate_Some:
  "relocate (Some f) (Some a) queue =
     (let fromIndex = findIndex (\<lambda>video. uid video = f) queue;
          video = (if 0 \<le> fromIndex then Some (queue ! nat fromIndex) else None);
          queue1 = snd (splice fromIndex 1 [] queue);
          afterIndex = findIndex (\<lambda>video. uid video = a) queue1
      in (case video of
            None \<Rightarrow> None
          | Some v \<Rightarrow> Some (snd (splice (afterIndex + 1) 0 [v] queue1))))"
  by (simp add: relocate_def)

lemma relocate_after_last:
  assumes d: "distinct (map uid (pre @ A @ t # B))" and ne: "pre \<noteq> []"
  shows "relocate (Some (uid t)) (Some (uid (last pre))) (pre @ A @ t # B) = Some (pre @ t # A @ B)"
proof -
  obtain p l where pre: "pre = p @ [l]"
    using ne by (metis append_butlast_last_id)
  have "findIndex (\<lambda>video. uid video = uid t) ((pre @ A) @ t # B) = int (length (pre @ A))"
    using distinct_uid_before [of "pre @ A" t B] d by (intro findIndex_hit) simp_all
  then have fi: "findIndex (\<lambda>video. uid video = uid t) (pre @ A @ t # B) = int (length (pre @ A))"
    by simp
  have sp: "splice (int (length (pre @ A))) 1 [] (pre @ A @ t # B) = ([t], pre @ A @ B)"
    using splice_remove_at [of "pre @ A" t B] by simp
  have "findIndex (\<lambda>video. uid video = uid l) (p @ l # (A @ B)) = int (length p)"
    using distinct_uid_before [of p l "A @ t # B"] d pre by (intro findIndex_hit) simp_all
  then have ai: "findIndex (\<lambda>video. uid video = uid (last pre)) (pre @ A @ B) + 1 = int (length pre)"
    by (simp add: pre)
  have ins: "splice (int (length pre)) 0 [t] (pre @ A @ B) = ([], pre @ t # A @ B)"
    by (rule splice_insert_at)
  have nth: "(pre @ A @ t # B) ! nat (int (length (pre @ A))) = t"
    using nth_append_length [of "pre @ A" t B] by (simp only: nat_int append_assoc)
  show ?thesis
    by (simp only: relocate_Some Let_def fi sp ai ins nth snd_conv of_nat_0_le_iff if_True
          option.case)
qed

section \<open>sortCytube: the loop\<close>

lemma sortCytube_loop_same:
  "i = length pre \<Longrightarrow>
   sortCytube_loop en rest i prev (pre @ rest, refs, out) = Inr (pre @ rest, refs, out)"
proof (induction rest arbitrary: pre i prev)
  case Nil
  then show ?case by simp
next
  case (Cons t rest)
  have "sortCytube_loop en rest (Suc i) (uid t) ((pre @ [t]) @ rest, refs, out)
          = Inr ((pre @ [t]) @ rest, refs, out)"
    by (rule Cons.IH) (simp add: Cons.prems)
  then show ?case using Cons.prems by simp
qed

lemma sortCytube_same: "sortCytube context (VideoQueue context) = Inr (context, [])"
  using sortCytube_loop_same [of 0 "[]" "isAutoSortEnabled context" "VideoQueue context" "- 1"
          "moveVideoRefCounter context" "[]"]
  by (simp add: sortCytube_def)

lemma moves_of_append_move: "moves_of (es @ [EmitMoveMedia f a]) = moves_of es @ [(f, a)]"
  by (induction es rule: moves_of.induct) auto

lemma apply_moves_append:
  "apply_moves (cs @ ds) q = (case apply_moves cs q of None \<Rightarrow> None | Some q' \<Rightarrow> apply_moves ds q')"
  by (induction cs q rule: apply_moves.induct) (auto split: option.splits)

text \<open>One pass of the loop body when a move is emitted, on a working copy whose first
  \<open>i\<close> items are in place.\<close>

lemma sortCytube_loop_move_step:
  assumes d: "distinct (map uid (pre @ A @ t # B))" and A: "A \<noteq> []" and p: "prev \<noteq> - 1"
  shows "sortCytube_loop en (t # rest) (length pre) prev (pre @ A @ t # B, refs, out) =
         sortCytube_loop en rest (Suc (length pre)) (uid t)
           (pre @ t # A @ B, recordRef en refs (uid t) prev, out @ [EmitMoveMedia (uid t) prev])"
proof -
  obtain a A' where A': "A = a # A'" using A by (cases A) auto
  have "uid a \<noteq> uid t"
    using distinct_uid_before [of "pre @ A" t B] d A' by simp
  then have neq: "uid t \<noteq> uid ((pre @ A @ t # B) ! length pre)"
    by (simp add: A')
  have "findIndex (\<lambda>video. uid video = uid t) ((pre @ A) @ t # B) = int (length (pre @ A))"
    using distinct_uid_before [of "pre @ A" t B] d by (intro findIndex_hit) simp_all
  then have fi: "findIndex (\<lambda>video. uid video = uid t) (pre @ A @ t # B) = int (length (pre @ A))"
    by simp
  have sp: "splice (int (length (pre @ A))) 1 [] (pre @ A @ t # B) = ([t], pre @ A @ B)"
    using splice_remove_at [of "pre @ A" t B] by simp
  have ins: "splice (int (length pre)) 0 [t] (pre @ A @ B) = ([], pre @ t # A @ B)"
    by (rule splice_insert_at)
  have len: "\<not> length (pre @ A @ t # B) \<le> length pre" by simp
  show ?thesis
    using neq p
    by (simp only: sortCytube_loop.simps len if_False Let_def fi sp ins split_conv list.case
          snd_conv simp_thms if_True)
qed

lemma sortCytube_loop_keep_step:
  assumes "prev = - 1 \<or> uid t = uid w"
  shows "sortCytube_loop en (t # rest) (length pre) prev (pre @ w # B, refs, out) =
         sortCytube_loop en rest (Suc (length pre)) (uid t) (pre @ w # B, refs, out)"
  using assms by (auto simp: Let_def)

lemma sortCytube_loop_correct:
  assumes "distinct (map uid (pre @ W))" and "mset W = mset rest" and "pre \<noteq> []"
    and "\<forall>v \<in> set (pre @ W). uid v \<noteq> - 1"
  shows "\<exists>refs' cmds.
           sortCytube_loop en rest (length pre) (uid (last pre)) (pre @ W, refs, out) =
             Inr (pre @ rest, refs', out @ map (\<lambda>(f, a). EmitMoveMedia f a) cmds) \<and>
           apply_moves cmds (pre @ W) = Some (pre @ rest)"
  using assms
proof (induction rest arbitrary: pre W refs out)
  case Nil
  then have "W = []" by simp
  then show ?case
    by (intro exI [of _ refs] exI [of _ "[]"]) simp
next
  case (Cons t rest)
  have "t \<in> set W"
    using Cons.prems(2) by (metis list.set_intros(1) set_mset_mset)
  then obtain A B where W: "W = A @ t # B"
    by (meson split_list)
  have ms: "mset (A @ B) = mset rest"
    using Cons.prems(2) W by simp
  have last_ok: "uid (last pre) \<noteq> - 1"
    using Cons.prems(3,4) by simp
  have d': "distinct (map uid ((pre @ [t]) @ (A @ B)))"
    using Cons.prems(1) W by auto
  have n1: "\<forall>v \<in> set ((pre @ [t]) @ (A @ B)). uid v \<noteq> - 1"
    using Cons.prems(4) W by auto
  have len: "length (pre @ [t]) = Suc (length pre)" and lst: "last (pre @ [t]) = t"
    by simp_all
  show ?case
  proof (cases "A = []")
    case True
    obtain refs' cmds where
      run: "sortCytube_loop en rest (length (pre @ [t])) (uid (last (pre @ [t])))
              ((pre @ [t]) @ (A @ B), refs, out) =
            Inr ((pre @ [t]) @ rest, refs', out @ map (\<lambda>(f, a). EmitMoveMedia f a) cmds)"
      and app: "apply_moves cmds ((pre @ [t]) @ (A @ B)) = Some ((pre @ [t]) @ rest)"
      using Cons.IH [OF d' ms _ n1, of refs out] by auto
    have step: "sortCytube_loop en (t # rest) (length pre) (uid (last pre)) (pre @ t # B, refs, out) =
          sortCytube_loop en rest (Suc (length pre)) (uid t) (pre @ t # B, refs, out)"
      by (rule sortCytube_loop_keep_step) simp
    show ?thesis
      using run app step unfolding len lst W True
      by (intro exI [of _ refs'] exI [of _ cmds]) simp
  next
    case False
    let ?out = "out @ [EmitMoveMedia (uid t) (uid (last pre))]"
    let ?refs = "recordRef en refs (uid t) (uid (last pre))"
    obtain refs' cmds where
      run: "sortCytube_loop en rest (length (pre @ [t])) (uid (last (pre @ [t])))
              ((pre @ [t]) @ (A @ B), ?refs, ?out) =
            Inr ((pre @ [t]) @ rest, refs', ?out @ map (\<lambda>(f, a). EmitMoveMedia f a) cmds)"
      and app: "apply_moves cmds ((pre @ [t]) @ (A @ B)) = Some ((pre @ [t]) @ rest)"
      using Cons.IH [OF d' ms _ n1, of ?refs ?out] by auto
    have dW: "distinct (map uid (pre @ A @ t # B))"
      using Cons.prems(1) W by simp
    have step: "sortCytube_loop en (t # rest) (length pre) (uid (last pre)) (pre @ A @ t # B, refs, out) =
          sortCytube_loop en rest (Suc (length pre)) (uid t) (pre @ t # A @ B, ?refs, ?out)"
      by (rule sortCytube_loop_move_step [OF dW False last_ok])
    have rel: "relocate (Some (uid t)) (Some (uid (last pre))) (pre @ A @ t # B) =
                 Some (pre @ t # A @ B)"
      by (rule relocate_after_last [OF dW Cons.prems(3)])
    show ?thesis
      using run app step rel unfolding len lst W
      by (intro exI [of _ refs'] exI [of _ "(uid t, uid (last pre)) # cmds"]) simp
  qed
qed

lemma moves_of_map: "moves_of (map (\<lambda>(f, a). EmitMoveMedia f a) cmds) = cmds"
  by (induction cmds) auto

lemma sortCytube_diff_correct:
  assumes d: "distinct (map uid current)" and m: "mset target = mset current"
    and h: "hd target = hd current" and n: "\<forall>v \<in> set current. uid v \<noteq> - 1"
  shows "\<exists>context' out.
           sortCytube (context\<lparr>VideoQueue := current\<rparr>) target = Inr (context', out) \<and>
           VideoQueue context' = target \<and>
           apply_moves (moves_of out) current = Some target"
proof (cases current)
  case Nil
  then have "target = []" using m by simp
  with Nil show ?thesis by (simp add: sortCytube_def)
next
  case (Cons c W)
  then have "target \<noteq> []" using m by auto
  then obtain rest where t: "target = c # rest"
    using h Cons by (cases target) auto
  have ms: "mset W = mset rest" using m Cons t by simp
  obtain refs' cmds where
    run: "sortCytube_loop (isAutoSortEnabled context) rest (length [c]) (uid (last [c]))
            ([c] @ W, moveVideoRefCounter context, []) =
          Inr ([c] @ rest, refs', [] @ map (\<lambda>(f, a). EmitMoveMedia f a) cmds)"
    and app: "apply_moves cmds ([c] @ W) = Some ([c] @ rest)"
    using sortCytube_loop_correct [of "[c]" W rest "isAutoSortEnabled context"
        "moveVideoRefCounter context" "[]"] d ms n Cons
    by auto
  have step: "sortCytube_loop (isAutoSortEnabled context) (c # rest) (length ([] :: 'a PlaylistItem list)) (- 1)
                ([] @ c # W, moveVideoRefCounter context, []) =
              sortCytube_loop (isAutoSortEnabled context) rest (Suc (length ([] :: 'a PlaylistItem list)))
                (uid c) ([] @ c # W, moveVideoRefCounter context, [])"
    by (rule sortCytube_loop_keep_step) simp
  show ?thesis
    using run app step
    by (simp add: sortCytube_def Cons t moves_of_map)
qed

section \<open>onErrorMsg: matching\<close>

lemma zip_letters:
  "zip ''ABCDEFGHIJKLMNOPQRSTUVWXYZ'' ''abcdefghijklmnopqrstuvwxyz'' = letter_cases"
  by (simp add: letter_cases_def)

lemma toLowerChar_map_of:
  "toLowerChar c = (case map_of letter_cases c of None \<Rightarrow> c | Some l \<Rightarrow> l)"
  by (simp only: toLowerChar_def zip_letters)

lemma distinct_capitals: "distinct (map fst letter_cases)"
  by (simp add: letter_cases_def)

lemma distinct_smalls: "distinct (map snd letter_cases)"
  by (simp add: letter_cases_def)

lemma small_not_capital: "\<forall>p \<in> set letter_cases. map_of letter_cases (snd p) = None"
  by (simp add: letter_cases_def)


lemma toLowerChar_eq_iff: "toLowerChar a = toLowerChar b \<longleftrightarrow> same_letter a b"
proof -
  have some: "map_of letter_cases u = Some l \<longleftrightarrow> (u, l) \<in> set letter_cases" for u l
    using distinct_capitals by simp
  have small: "(u, l) \<in> set letter_cases \<Longrightarrow> map_of letter_cases l = None" for u l
    using small_not_capital by fastforce
  have inj: "(u, l) \<in> set letter_cases \<Longrightarrow> (u', l) \<in> set letter_cases \<Longrightarrow> u = u'" for u u' l
    using distinct_smalls by (metis distinct_capitals eq_key_imp_eq_value distinct_map inj_on_def prod.inject snd_conv fst_conv)
  show ?thesis
  proof (cases "map_of letter_cases a")
    case None
    note a = None
    show ?thesis
    proof (cases "map_of letter_cases b")
      case None
      with a show ?thesis
        by (auto simp: toLowerChar_map_of same_letter_def some [symmetric])
    next
      case (Some lb)
      then have "(b, lb) \<in> set letter_cases" by (simp add: some)
      with a Some show ?thesis
        using small [of b lb] by (auto simp: toLowerChar_map_of same_letter_def some [symmetric])
    qed
  next
    case (Some la)
    note a = Some
    then have ain: "(a, la) \<in> set letter_cases" by (simp add: some)
    show ?thesis
    proof (cases "map_of letter_cases b")
      case None
      with a ain show ?thesis
        using small [of a la] by (auto simp: toLowerChar_map_of same_letter_def some [symmetric])
    next
      case (Some lb)
      then have bin: "(b, lb) \<in> set letter_cases" by (simp add: some)
      have "la = lb \<longleftrightarrow> a = b"
        using inj [of a la b] ain bin a Some by auto
      moreover have "(a, b) \<notin> set letter_cases" "(b, a) \<notin> set letter_cases"
        using small [of a b] small [of b a] a Some by auto
      ultimately show ?thesis
        using a Some by (simp add: toLowerChar_map_of same_letter_def)
    qed
  qed
qed

lemma includes_str_iff:
  "includes_str s sub \<longleftrightarrow> (\<exists>i. i + length sub \<le> length s \<and> take (length sub) (drop i s) = sub)"
proof (induction s)
  case Nil
  then show ?case by auto
next
  case (Cons c cs)
  show ?case
  proof
    assume "includes_str (c # cs) sub"
    then consider "take (length sub) (c # cs) = sub" | "includes_str cs sub" by auto
    then show "\<exists>i. i + length sub \<le> length (c # cs) \<and> take (length sub) (drop i (c # cs)) = sub"
    proof cases
      case 1
      from arg_cong [OF 1, of length] have "length sub \<le> length (c # cs)"
        by simp
      with 1 show ?thesis by (intro exI [of _ 0]) simp
    next
      case 2
      with Cons.IH obtain i where "i + length sub \<le> length cs" "take (length sub) (drop i cs) = sub"
        by auto
      then show ?thesis by (intro exI [of _ "Suc i"]) simp
    qed
  next
    assume "\<exists>i. i + length sub \<le> length (c # cs) \<and> take (length sub) (drop i (c # cs)) = sub"
    then obtain i where i: "i + length sub \<le> length (c # cs)" "take (length sub) (drop i (c # cs)) = sub"
      by auto
    show "includes_str (c # cs) sub"
    proof (cases i)
      case 0
      with i show ?thesis by simp
    next
      case (Suc k)
      with i have "k + length sub \<le> length cs" "take (length sub) (drop k cs) = sub" by auto
      with Cons.IH have "includes_str cs sub" by auto
      then show ?thesis by simp
    qed
  qed
qed

lemma take_drop_map_eq:
  assumes "i + length p \<le> length s"
  shows "take (length p) (drop i (map f s)) = map f p \<longleftrightarrow> (\<forall>j < length p. f (s ! (i + j)) = f (p ! j))"
  using assms by (auto simp: list_eq_iff_nth_eq)

lemma includes_lower_iff: "includes_str (toLowerCase msg) (toLowerCase phrase) \<longleftrightarrow> contains_ci msg phrase"
proof -
  have "includes_str (toLowerCase msg) (toLowerCase phrase) \<longleftrightarrow>
        (\<exists>i. i + length phrase \<le> length msg \<and>
             take (length phrase) (drop i (map toLowerChar msg)) = map toLowerChar phrase)"
    by (simp add: includes_str_iff toLowerCase_def)
  also have "\<dots> \<longleftrightarrow> (\<exists>i. i + length phrase \<le> length msg \<and>
             (\<forall>j < length phrase. toLowerChar (msg ! (i + j)) = toLowerChar (phrase ! j)))"
    using take_drop_map_eq [of _ phrase msg toLowerChar] by blast
  also have "\<dots> \<longleftrightarrow> (\<exists>i. i + length phrase \<le> length msg \<and>
             (\<forall>j < length phrase. same_letter (msg ! (i + j)) (phrase ! j)))"
    by (simp only: toLowerChar_eq_iff)
  also have "\<dots> \<longleftrightarrow> contains_ci msg phrase"
    unfolding contains_ci_def
    by (rule iffI) (force, auto)
  finally show ?thesis .
qed


lemma toLowerCase_criticalErrors:
  "map toLowerCase criticalErrors =
     [''invalid channel name'', ''blocked anonymous users'', ''unable to join channel'',
      ''channel could not be loaded'', ''invalid login'']"
  by (simp add: criticalErrors_def toLowerCase_def toLowerChar_def)

lemma list_ex_lower:
  "list_ex (\<lambda>error. includes_str s (toLowerCase error)) es = list_ex (includes_str s) (map toLowerCase es)"
  by (simp add: list_ex_iff)

lemma toLowerCase_invalid_login: "toLowerCase ''INVALID Login.'' = ''invalid login.''"
  by (simp add: toLowerCase_def toLowerChar_def)
lemma toLowerCase_slow_down: "toLowerCase ''Slow down'' = ''slow down''"
  by (simp add: toLowerCase_def toLowerChar_def)

lemma includes_invalid_login: "list_ex (\<lambda>error. includes_str (toLowerCase ''INVALID Login.'') (toLowerCase error)) criticalErrors"
  unfolding list_ex_lower toLowerCase_criticalErrors toLowerCase_invalid_login by simp
lemma not_includes_slow_down: "\<not> list_ex (\<lambda>error. includes_str (toLowerCase ''Slow down'') (toLowerCase error)) criticalErrors"
  unfolding list_ex_lower toLowerCase_criticalErrors toLowerCase_slow_down by simp


section \<open>roundRobinSortVideos: the map of submitters\<close>

subsection \<open>The map after the two forEach passes\<close>

lemma update_empty_keys:
  "AList.update k [] (map (\<lambda>u. (u, [])) ks) =
   map (\<lambda>u. (u, [])) (if k \<in> set ks then ks else ks @ [k])"
  by (induction ks) auto

lemma fold_update_empty:
  "fold (\<lambda>video m. AList.update (queueby video) [] m) queue (map (\<lambda>u. (u, [])) ks) =
   map (\<lambda>u. (u, []))
     (fold (\<lambda>video ks. if queueby video \<in> set ks then ks else ks @ [queueby video]) queue ks)"
proof (induction queue arbitrary: ks)
  case Nil
  then show ?case by simp
next
  case (Cons v queue)
  show ?case
    using Cons.IH [of "if queueby v \<in> set ks then ks else ks @ [queueby v]"]
    by (simp only: fold_Cons comp_apply update_empty_keys)
qed

lemma initUserMap_eq: "initUserMap queue = map (\<lambda>u. (u, [])) (userNames_of queue)"
  using fold_update_empty [of queue "[]"] by (simp add: initUserMap_def userNames_of_def)

lemma fold_keys_distinct_set:
  "distinct ks \<Longrightarrow>
   distinct (fold (\<lambda>video ks. if queueby video \<in> set ks then ks else ks @ [queueby video]) queue ks) \<and>
   set (fold (\<lambda>video ks. if queueby video \<in> set ks then ks else ks @ [queueby video]) queue ks) =
     set ks \<union> queueby ` set queue"
  by (induction queue arbitrary: ks) auto

lemma distinct_userNames_of: "distinct (userNames_of queue)"
  using fold_keys_distinct_set [of "[]" queue] by (simp add: userNames_of_def)

lemma set_userNames_of: "set (userNames_of queue) = queueby ` set queue"
  using fold_keys_distinct_set [of "[]" queue] by (simp add: userNames_of_def)

lemma update_present:
  "distinct (map fst m) \<Longrightarrow> map_of m k = Some l \<Longrightarrow>
   AList.update k x m = map (\<lambda>(u, l'). (u, if u = k then x else l')) m"
proof (induction m)
  case Nil
  then show ?case by simp
next
  case (Cons p m)
  obtain u l0 where p: "p = (u, l0)" by (cases p)
  show ?case
  proof (cases "u = k")
    case True
    then have "k \<notin> fst ` set m" using Cons.prems(1) p by auto
    then have "map (\<lambda>(u, l'). (u, if u = k then x else l')) m = m"
      by (induction m) auto
    with True p show ?thesis by simp
  next
    case False
    with Cons p show ?thesis by auto
  qed
qed

lemma pushVideos_eq:
  "distinct (map fst m) \<Longrightarrow> queueby ` set videos \<subseteq> fst ` set m \<Longrightarrow>
   pushVideos videos m = Inr (map (\<lambda>(u, l). (u, l @ videos_of u videos)) m)"
proof (induction videos arbitrary: m)
  case Nil
  then show ?case by (simp add: videos_of_def)
next
  case (Cons v videos)
  have "queueby v \<in> fst ` set m" using Cons.prems(2) by simp
  then obtain l where l: "map_of m (queueby v) = Some l"
    by (metis domD dom_map_of_conv_image_fst)
  let ?m = "map (\<lambda>(u, l'). (u, if u = queueby v then l @ [v] else l')) m"
  have upd: "AList.update (queueby v) (l @ [v]) m = ?m"
    by (rule update_present [OF Cons.prems(1) l])
  have keys: "map fst ?m = map fst m"
    by (induction m) auto
  have IH: "pushVideos videos ?m = Inr (map (\<lambda>(u, l). (u, l @ videos_of u videos)) ?m)"
    using Cons.prems by (intro Cons.IH) (simp_all only: keys set_map [symmetric], auto)
  have "map (\<lambda>(u, l). (u, l @ videos_of u videos)) ?m =
        map (\<lambda>(u, l). (u, l @ videos_of u (v # videos))) m"
    using l Cons.prems(1)
  proof (induction m)
    case Nil
    then show ?case by simp
  next
    case (Cons p m)
    obtain u l0 where p: "p = (u, l0)" by (cases p)
    show ?case
    proof (cases "u = queueby v")
      case True
      have "l0 = l" using Cons.prems(1) p True by simp
      moreover have "queueby v \<notin> fst ` set m" using Cons.prems(2) p True by auto
      then have "map (\<lambda>(u, l). (u, l @ videos_of u videos))
                   (map (\<lambda>(u, l'). (u, if u = queueby v then l @ [v] else l')) m) =
                 map (\<lambda>(u, l). (u, l @ videos_of u (v # videos))) m"
        by (induction m) (auto simp: videos_of_def)
      ultimately show ?thesis using p True by (simp add: videos_of_def)
    next
      case False
      then show ?thesis using Cons p by (auto simp: videos_of_def)
    qed
  qed
  then show ?case using l upd IH by simp
qed

lemma pushVideos_initUserMap:
  "pushVideos queue (initUserMap queue) = Inr (groups_of queue)"
proof -
  have "pushVideos queue (initUserMap queue) =
        Inr (map (\<lambda>(u, l). (u, l @ videos_of u queue)) (initUserMap queue))"
    by (rule pushVideos_eq)
      (simp_all add: initUserMap_eq comp_def distinct_userNames_of set_userNames_of image_image)
  then show ?thesis by (simp add: initUserMap_eq groups_of_def comp_def)
qed

subsection \<open>One round, and all rounds\<close>

lemma map_of_append_fresh:
  "k \<notin> fst ` set m1 \<Longrightarrow> map_of (m1 @ (k, l) # m2) k = Some l"
  by (induction m1) auto

lemma update_append_fresh:
  "k \<notin> fst ` set m1 \<Longrightarrow> AList.update k x (m1 @ (k, l) # m2) = m1 @ (k, x) # m2"
  by (induction m1) auto

lemma roundRobin_users_eq:
  "distinct (map fst (m1 @ m2)) \<Longrightarrow>
   roundRobin_users (map fst m2) (m1 @ m2, acc) =
     Inr (m1 @ map (\<lambda>(u, l). (u, tl l)) m2, acc @ round_of 0 m2)"
proof (induction m2 arbitrary: m1 acc)
  case Nil
  then show ?case by (simp add: round_of_def)
next
  case (Cons p m2)
  obtain u l where p: "p = (u, l)" by (cases p)
  have fresh: "u \<notin> fst ` set m1"
    using Cons.prems p by auto
  have look: "map_of (m1 @ (u, l) # m2) u = Some l"
    by (rule map_of_append_fresh [OF fresh])
  show ?case
  proof (cases l)
    case Nil
    have d: "distinct (map fst ((m1 @ [(u, [])]) @ m2))"
      using Cons.prems p Nil by simp
    show ?thesis
      using Cons.IH [OF d, of acc] look p Nil by (simp add: round_of_def)
  next
    case (Cons x xs)
    have d: "distinct (map fst ((m1 @ [(u, xs)]) @ m2))"
      using Cons.prems p by simp
    have upd: "AList.update u xs (m1 @ (u, l) # m2) = m1 @ (u, xs) # m2"
      by (rule update_append_fresh [OF fresh])
    show ?thesis
      using Cons.IH [OF d, of "acc @ [x]"] look upd p Cons by (simp add: round_of_def)
  qed
qed

lemma round_of_tl: "round_of k (map (\<lambda>(u, l). (u, tl l)) m) = round_of (Suc k) m"
  by (simp add: round_of_def comp_def case_prod_unfold drop_Suc)

lemma rounds_of_Suc_front:
  "rounds_of (Suc n) m = round_of 0 m @ rounds_of n (map (\<lambda>(u, l). (u, tl l)) m)"
proof -
  have "[0 ..< Suc n] = 0 # map Suc [0 ..< n]"
    by (simp add: upt_conv_Cons map_Suc_upt del: upt_Suc)
  then show ?thesis
    by (simp add: rounds_of_def comp_def round_of_tl del: upt_Suc)
qed

lemma roundRobin_rounds_eq:
  "distinct (map fst m) \<Longrightarrow>
   roundRobin_rounds n (map fst m) (m, acc) =
     Inr (map (\<lambda>(u, l). (u, drop n l)) m, acc @ rounds_of n m)"
proof (induction n arbitrary: m acc)
  case 0
  then show ?case by (simp add: rounds_of_def case_prod_unfold)
next
  case (Suc n)
  let ?m = "map (\<lambda>(u, l). (u, tl l)) m"
  have keys: "map fst ?m = map fst m" by (simp add: comp_def case_prod_unfold)
  have one: "roundRobin_users (map fst m) (m, acc) = Inr (?m, acc @ round_of 0 m)"
    using roundRobin_users_eq [of "[]" m acc] Suc.prems by simp
  have "roundRobin_rounds n (map fst ?m) (?m, acc @ round_of 0 m) =
        Inr (map (\<lambda>(u, l). (u, drop n l)) ?m, (acc @ round_of 0 m) @ rounds_of n ?m)"
    using Suc.prems by (intro Suc.IH) (simp only: keys)
  then have rest: "roundRobin_rounds n (map fst m) (?m, acc @ round_of 0 m) =
        Inr (map (\<lambda>(u, l). (u, drop (Suc n) l)) m, acc @ rounds_of (Suc n) m)"
    by (simp only: keys rounds_of_Suc_front append_assoc)
       (simp add: comp_def case_prod_unfold drop_Suc)
  show ?case
    using one rest by simp
qed

lemma distinct_keys_groups_of: "distinct (map fst (groups_of queue))"
  by (simp add: groups_of_def comp_def distinct_userNames_of)

lemma roundRobinSortVideos_eq:
  "roundRobinSortVideos context =
     Inr (rounds_of (maxVideos_of (groups_of (VideoQueue context))) (groups_of (VideoQueue context)))"
  using roundRobin_rounds_eq [OF distinct_keys_groups_of,
      of "maxVideos_of (groups_of (VideoQueue context))" "VideoQueue context" "[]"]
  by (simp add: roundRobinSortVideos_def pushVideos_initUserMap Let_def)

subsection \<open>The output is a permutation of the queue\<close>

lemma rounds_of_Suc: "rounds_of (Suc n) m = rounds_of n m @ round_of n m"
  by (simp add: rounds_of_def)

lemma mset_round_of: "mset (round_of k m) = (\<Sum>p\<leftarrow>m. mset (take 1 (drop k (snd p))))"
  by (simp add: round_of_def mset_concat comp_def case_prod_unfold)

lemma mset_rounds_of: "mset (rounds_of n m) = (\<Sum>p\<leftarrow>m. mset (take n (snd p)))"
proof (induction n)
  case 0
  then show ?case by (simp add: rounds_of_def)
next
  case (Suc n)
  have "take (Suc n) l = take n l @ take 1 (drop n l)" for l :: "'a PlaylistItem list"
    using take_add [of n 1 l] by simp
  then have "(\<Sum>p\<leftarrow>m. mset (take (Suc n) (snd p))) =
             (\<Sum>p\<leftarrow>m. mset (take n (snd p)) + mset (take 1 (drop n (snd p))))"
    by simp
  also have "\<dots> = (\<Sum>p\<leftarrow>m. mset (take n (snd p))) + (\<Sum>p\<leftarrow>m. mset (take 1 (drop n (snd p))))"
    by (rule sum_list_addf)
  finally show ?case
    by (simp add: rounds_of_Suc Suc.IH mset_round_of)
qed

lemma fold_max_ge: "a \<le> fold max xs (a::nat) \<and> (\<forall>x \<in> set xs. x \<le> fold max xs a)"
proof (induction xs arbitrary: a)
  case Nil
  then show ?case by simp
next
  case (Cons x xs)
  from Cons.IH [of "max x a"] show ?case by auto
qed

lemma length_le_maxVideos_of: "p \<in> set m \<Longrightarrow> length (snd p) \<le> maxVideos_of m"
  using fold_max_ge [of 0 "map (\<lambda>v. length (snd v)) m"] by (auto simp: maxVideos_of_def)

lemma mset_rounds_of_max: "mset (rounds_of (maxVideos_of m) m) = (\<Sum>p\<leftarrow>m. mset (snd p))"
proof -
  have "map (\<lambda>p. mset (take (maxVideos_of m) (snd p))) m = map (\<lambda>p. mset (snd p)) m"
    by (rule map_cong) (simp_all add: length_le_maxVideos_of)
  then show ?thesis by (simp only: mset_rounds_of)
qed

lemma sum_single_user:
  "distinct us \<Longrightarrow> k \<in> set us \<Longrightarrow>
   (\<Sum>u\<leftarrow>us. (if k = u then {#v#} else {#})) = {#v#}"
proof (induction us)
  case Nil
  then show ?case by simp
next
  case (Cons u us)
  show ?case
  proof (cases "k = u")
    case True
    then have "k \<notin> set us" using Cons.prems by simp
    then have "(\<Sum>u\<leftarrow>us. (if k = u then {#v#} else {#})) = {#}"
      by (induction us) auto
    with True show ?thesis by simp
  next
    case False
    with Cons show ?thesis by simp
  qed
qed

lemma mset_videos_of_users:
  "distinct us \<Longrightarrow> queueby ` set queue \<subseteq> set us \<Longrightarrow>
   (\<Sum>u\<leftarrow>us. mset (videos_of u queue)) = mset queue"
proof (induction queue)
  case Nil
  then show ?case by (simp add: videos_of_def)
next
  case (Cons v queue)
  have "(\<Sum>u\<leftarrow>us. mset (videos_of u (v # queue))) =
        (\<Sum>u\<leftarrow>us. (if queueby v = u then {#v#} else {#}) + mset (videos_of u queue))"
    by (rule arg_cong [where f = sum_list]) (simp add: videos_of_def)
  also have "\<dots> = (\<Sum>u\<leftarrow>us. (if queueby v = u then {#v#} else {#})) +
                   (\<Sum>u\<leftarrow>us. mset (videos_of u queue))"
    by (rule sum_list_addf)
  also have "\<dots> = {#v#} + mset queue"
    using Cons by (simp add: sum_single_user)
  finally show ?case by simp
qed

lemma mset_groups_of: "(\<Sum>p\<leftarrow>groups_of queue. mset (snd p)) = mset queue"
  using mset_videos_of_users [OF distinct_userNames_of, of queue queue]
  by (simp add: groups_of_def comp_def set_userNames_of)

lemma roundRobinSortVideos_mset:
  "\<exists>sorted'. roundRobinSortVideos context = Inr sorted' \<and> mset sorted' = mset (VideoQueue context)"
  by (simp add: roundRobinSortVideos_eq mset_rounds_of_max mset_groups_of)

subsection \<open>The first item stays first\<close>

lemma fold_keys_prefix:
  "\<exists>more. fold (\<lambda>video ks. if queueby video \<in> set ks then ks else ks @ [queueby video]) queue ks
     = ks @ more"
proof (induction queue arbitrary: ks)
  case Nil
  then show ?case by simp
next
  case (Cons v queue)
  from Cons.IH [of "if queueby v \<in> set ks then ks else ks @ [queueby v]"]
  show ?case by (auto split: if_splits)
qed

lemma userNames_of_Cons: "\<exists>more. userNames_of (v # queue) = queueby v # more"
  using fold_keys_prefix [of queue "[queueby v]"] by (simp add: userNames_of_def)

lemma roundRobinSortVideos_hd:
  assumes "VideoQueue context \<noteq> []"
  shows "\<exists>sorted'. roundRobinSortVideos context = Inr sorted' \<and> sorted' \<noteq> [] \<and>
           hd sorted' = hd (VideoQueue context)"
proof -
  obtain v queue where q: "VideoQueue context = v # queue"
    using assms by (cases "VideoQueue context") auto
  obtain more where us: "userNames_of (v # queue) = queueby v # more"
    using userNames_of_Cons by blast
  let ?g = "groups_of (v # queue)"
  obtain l g where g: "?g = (queueby v, v # l) # g"
    by (simp add: groups_of_def us videos_of_def)
  have "length (snd (queueby v, v # l)) \<le> maxVideos_of ?g"
    by (rule length_le_maxVideos_of) (simp add: g)
  then obtain n where n: "maxVideos_of ?g = Suc n"
    by (cases "maxVideos_of ?g") auto
  have "rounds_of (Suc n) ?g = round_of 0 ?g @ rounds_of n (map (\<lambda>(u, l). (u, tl l)) ?g)"
    by (rule rounds_of_Suc_front)
  moreover have "\<exists>r. round_of 0 ?g = v # r"
    by (simp add: g round_of_def)
  ultimately obtain r where "rounds_of (maxVideos_of ?g) ?g = v # r"
    using n by auto
  then show ?thesis
    by (simp add: roundRobinSortVideos_eq q)
qed

subsection \<open>Every submitter keeps the order of their own videos\<close>

lemma videos_of_concat:
  "videos_of u (concat xss) = concat (map (videos_of u) xss)"
  by (induction xss) (simp_all add: videos_of_def)

lemma videos_of_append: "videos_of u (xs @ ys) = videos_of u xs @ videos_of u ys"
  by (simp add: videos_of_def)

lemma videos_of_Nil: "videos_of u [] = []"
  by (simp add: videos_of_def)

lemma videos_of_none: "\<forall>v \<in> set xs. queueby v \<noteq> u \<Longrightarrow> videos_of u xs = []"
  by (simp add: videos_of_def filter_empty_conv)

lemma videos_of_all: "\<forall>v \<in> set xs. queueby v = u \<Longrightarrow> videos_of u xs = xs"
  by (simp add: videos_of_def filter_id_conv)

lemma queueby_take_drop:
  "v \<in> set (take n (drop k (videos_of u' queue))) \<Longrightarrow> queueby v = u'"
proof -
  assume "v \<in> set (take n (drop k (videos_of u' queue)))"
  then have "v \<in> set (videos_of u' queue)"
    by (blast dest: in_set_takeD in_set_dropD)
  then show ?thesis by (simp add: videos_of_def)
qed

lemma videos_of_take_drop_other:
  "u \<noteq> u' \<Longrightarrow> videos_of u (take (Suc 0) (drop k (videos_of u' queue))) = []"
  by (rule videos_of_none) (blast dest: queueby_take_drop)

lemma videos_of_take_drop_same:
  "videos_of u (take (Suc 0) (drop k (videos_of u queue))) = take (Suc 0) (drop k (videos_of u queue))"
  by (rule videos_of_all) (blast dest: queueby_take_drop)

lemma videos_of_round_users:
  "u \<notin> set us \<Longrightarrow>
   videos_of u (concat (map (\<lambda>u'. take (Suc 0) (drop k (videos_of u' queue))) us)) = []"
  by (induction us) (simp_all add: videos_of_Nil videos_of_append videos_of_take_drop_other)

lemma videos_of_round_split:
  "u \<notin> set U1 \<Longrightarrow> u \<notin> set U2 \<Longrightarrow>
   videos_of u (concat (map (\<lambda>u'. take (Suc 0) (drop k (videos_of u' queue))) (U1 @ u # U2)) ) =
     take (Suc 0) (drop k (videos_of u queue))"
  using videos_of_round_users [of u U1 k queue] videos_of_round_users [of u U2 k queue]
    videos_of_take_drop_same [of u k queue]
  by (simp add: videos_of_append)

lemma round_of_groups_of:
  "round_of k (groups_of queue) =
     concat (map (\<lambda>u'. take (Suc 0) (drop k (videos_of u' queue))) (userNames_of queue))"
  by (simp add: round_of_def groups_of_def comp_def)

lemma videos_of_absent: "u \<notin> queueby ` set queue \<Longrightarrow> videos_of u queue = []"
  by (auto simp: videos_of_def filter_empty_conv)

lemma videos_of_round_of:
  "videos_of u (round_of k (groups_of queue)) = take (Suc 0) (drop k (videos_of u queue))"
proof (cases "u \<in> set (userNames_of queue)")
  case True
  then obtain U1 U2 where us: "userNames_of queue = U1 @ u # U2"
    by (meson split_list)
  then have U: "u \<notin> set U1" "u \<notin> set U2"
    using distinct_userNames_of [of queue] by auto
  show ?thesis
    using videos_of_round_split [OF U, of k queue] by (simp only: round_of_groups_of us)
next
  case False
  then have "videos_of u queue = []"
    by (simp add: set_userNames_of videos_of_absent)
  with False show ?thesis
    by (simp add: round_of_groups_of videos_of_round_users videos_of_Nil)
qed

lemma concat_take1_drop: "concat (map (\<lambda>k. take (Suc 0) (drop k l)) [0 ..< n]) = take n l"
proof (induction n)
  case 0
  then show ?case by simp
next
  case (Suc n)
  have "take (Suc n) l = take n l @ take (Suc 0) (drop n l)"
    using take_add [of n 1 l] by simp
  with Suc show ?case by simp
qed

lemma videos_of_rounds_of:
  "videos_of u (rounds_of n (groups_of queue)) = take n (videos_of u queue)"
  by (simp add: rounds_of_def videos_of_concat comp_def videos_of_round_of concat_take1_drop)

lemma length_videos_of_le_max:
  "length (videos_of u queue) \<le> maxVideos_of (groups_of queue)"
proof (cases "u \<in> set (userNames_of queue)")
  case True
  then have "(u, videos_of u queue) \<in> set (groups_of queue)"
    by (auto simp: groups_of_def)
  from length_le_maxVideos_of [OF this] show ?thesis by simp
next
  case False
  then show ?thesis by (simp add: set_userNames_of videos_of_absent)
qed

lemma roundRobinSortVideos_keeps_order:
  "videos_of u (rounds_of (maxVideos_of (groups_of queue)) (groups_of queue)) = videos_of u queue"
  by (simp add: videos_of_rounds_of length_videos_of_le_max)

subsection \<open>Earlier submitters come first within every round\<close>

lemma length_videos_of_take: "length (videos_of u (take i xs)) \<le> length (videos_of u xs)"
proof -
  have "videos_of u xs = videos_of u (take i xs) @ videos_of u (drop i xs)"
    using videos_of_append [of u "take i xs" "drop i xs"] by simp
  then show ?thesis by simp
qed

lemma videos_of_take_none: "videos_of u xs = [] \<Longrightarrow> videos_of u (take i xs) = []"
  using length_videos_of_take [of u i xs] by simp

lemma round_prefix_balanced:
  assumes us: "userNames_of queue = U1 @ s # U2" and t: "t \<in> set U2"
    and k: "k < length (videos_of s queue)"
  shows "length (videos_of t (take i (round_of k (groups_of queue)))) \<le>
         length (videos_of s (take i (round_of k (groups_of queue))))"
proof -
  let ?f = "\<lambda>u'. take (Suc 0) (drop k (videos_of u' queue))"
  let ?A = "concat (map ?f U1)"
  let ?B = "concat (map ?f U2)"
  let ?r = "round_of k (groups_of queue)"
  have d: "distinct (U1 @ s # U2)"
    using distinct_userNames_of [of queue] us by simp
  then have tU1: "t \<notin> set U1" and ts: "t \<noteq> s"
    using t by auto
  obtain x where x: "?f s = [x]"
    using k by (cases "drop k (videos_of s queue)") auto
  have qx: "queueby x = s"
    using queueby_take_drop [of x "Suc 0" k s queue] x by simp
  have r: "?r = ?A @ x # ?B"
    by (simp add: round_of_groups_of us x)
  have tA: "videos_of t ?A = []"
    by (rule videos_of_round_users [OF tU1])
  have t_le: "length (videos_of t (take i ?r)) \<le> 1"
  proof -
    have "length (videos_of t (take i ?r)) \<le> length (videos_of t ?r)"
      by (rule length_videos_of_take)
    also have "\<dots> \<le> 1"
      by (simp add: videos_of_round_of)
    finally show ?thesis .
  qed
  show ?thesis
  proof (cases "i \<le> length ?A")
    case True
    then have "take i ?r = take i ?A" by (simp add: r)
    then show ?thesis
      using videos_of_take_none [OF tA, of i] by simp
  next
    case False
    then obtain j where "i - length ?A = Suc j"
      by (cases "i - length ?A") auto
    then have "take i ?r = ?A @ x # take j ?B"
      using False by (simp add: r)
    then have "1 \<le> length (videos_of s (take i ?r))"
      using qx by (simp add: videos_of_append videos_of_def)
    with t_le show ?thesis by linarith
  qed
qed

subsection \<open>Every prefix of the output is balanced\<close>

lemma length_rounds_videos:
  "length (videos_of u (rounds_of n (groups_of queue))) = min n (length (videos_of u queue))"
  by (simp add: videos_of_rounds_of min.commute)

lemma rounds_prefix_balanced:
  assumes us: "userNames_of queue = U1 @ s # U2" and t: "t \<in> set U2"
  shows "min (length (videos_of t (take i (rounds_of n (groups_of queue)))))
             (length (videos_of s queue)) \<le>
         length (videos_of s (take i (rounds_of n (groups_of queue))))"
proof (induction n arbitrary: i)
  case 0
  then show ?case by (simp add: rounds_of_def videos_of_Nil)
next
  case (Suc n)
  let ?R = "rounds_of n (groups_of queue)"
  let ?r = "round_of n (groups_of queue)"
  show ?case
  proof (cases "i \<le> length ?R")
    case True
    then have "take i (rounds_of (Suc n) (groups_of queue)) = take i ?R"
      by (simp add: rounds_of_Suc)
    then show ?thesis using Suc.IH [of i] by simp
  next
    case False
    let ?i = "i - length ?R"
    have tk: "take i (rounds_of (Suc n) (groups_of queue)) = ?R @ take ?i ?r"
      using False by (simp add: rounds_of_Suc)
    have cs: "length (videos_of s (take i (rounds_of (Suc n) (groups_of queue)))) =
              min n (length (videos_of s queue)) + length (videos_of s (take ?i ?r))"
      by (simp only: tk videos_of_append length_append length_rounds_videos)
    have ct: "length (videos_of t (take i (rounds_of (Suc n) (groups_of queue)))) =
              min n (length (videos_of t queue)) + length (videos_of t (take ?i ?r))"
      by (simp only: tk videos_of_append length_append length_rounds_videos)
    show ?thesis
    proof (cases "n < length (videos_of s queue)")
      case True
      from round_prefix_balanced [OF us t True, of ?i]
      show ?thesis unfolding cs ct using True by simp
    next
      case False
      then show ?thesis unfolding cs ct by simp
    qed
  qed
qed

subsection \<open>First met earlier in the queue, earlier among the user names\<close>

lemma findIndex_found:
  "0 \<le> findIndex P xs \<Longrightarrow>
   \<exists>A x B. xs = A @ x # B \<and> P x \<and> (\<forall>y \<in> set A. \<not> P y) \<and> findIndex P xs = int (length A)"
proof (induction xs)
  case Nil
  then show ?case by simp
next
  case (Cons a xs)
  show ?case
  proof (cases "P a")
    case True
    then show ?thesis by (intro exI [of _ "[]"] exI [of _ a] exI [of _ xs]) simp
  next
    case False
    then have "0 \<le> findIndex P xs"
      using Cons.prems findIndex_ge [of P xs] by (auto simp: Let_def split: if_splits)
    with Cons.IH obtain A x B where
      "xs = A @ x # B" "P x" "\<forall>y \<in> set A. \<not> P y" "findIndex P xs = int (length A)"
      by blast
    with False show ?thesis
      by (intro exI [of _ "a # A"] exI [of _ x] exI [of _ B]) (simp add: Let_def)
  qed
qed

lemma findIndex_early:
  "y \<in> set A \<Longrightarrow> P y \<Longrightarrow> 0 \<le> findIndex P (A @ B) \<and> findIndex P (A @ B) < int (length A)"
proof (induction A)
  case Nil
  then show ?case by simp
next
  case (Cons a A)
  then show ?case by (cases "P a") (auto simp: Let_def)
qed

lemma userNames_of_first_met:
  assumes s: "0 \<le> findIndex (\<lambda>v. queueby v = s) queue"
    and lt: "findIndex (\<lambda>v. queueby v = s) queue < findIndex (\<lambda>v. queueby v = t) queue"
    and t: "t \<in> queueby ` set queue"
  shows "\<exists>U1 U2. userNames_of queue = U1 @ s # U2 \<and> t \<in> set U2"
proof -
  obtain A x B where q: "queue = A @ x # B" and x: "queueby x = s"
    and A: "\<forall>y \<in> set A. queueby y \<noteq> s"
    and fi: "findIndex (\<lambda>v. queueby v = s) queue = int (length A)"
    using findIndex_found [OF s] by blast
  have tA: "\<forall>y \<in> set A. queueby y \<noteq> t"
  proof
    fix y assume "y \<in> set A"
    show "queueby y \<noteq> t"
    proof
      assume "queueby y = t"
      with \<open>y \<in> set A\<close> have "findIndex (\<lambda>v. queueby v = t) (A @ x # B) < int (length A)"
        using findIndex_early [of y A "\<lambda>v. queueby v = t" "x # B"] by simp
      with lt fi q show False by simp
    qed
  qed
  have ts: "t \<noteq> s" using lt by auto
  let ?f = "\<lambda>video ks. if queueby video \<in> set ks then ks else ks @ [queueby video]"
  have sK: "s \<notin> set (userNames_of A)" and tK: "t \<notin> set (userNames_of A)"
    using A tA by (auto simp: set_userNames_of)
  have "userNames_of queue = fold ?f B (userNames_of A @ [s])"
    using sK by (simp add: userNames_of_def q x)
  then obtain more where us: "userNames_of queue = userNames_of A @ s # more"
    using fold_keys_prefix [of B "userNames_of A @ [s]"] by auto
  have "t \<in> set (userNames_of queue)"
    using t by (simp add: set_userNames_of)
  then have "t \<in> set more"
    using us tK ts by auto
  with us show ?thesis by blast
qed

lemma rounds_fair:
  fixes queue :: "'m PlaylistItem list"
  defines "out \<equiv> rounds_of (maxVideos_of (groups_of queue)) (groups_of queue)"
  assumes j: "j < length out" and tj: "queueby (out ! j) = t"
    and s: "0 \<le> findIndex (\<lambda>v. queueby v = s) queue"
    and lt: "findIndex (\<lambda>v. queueby v = s) queue < findIndex (\<lambda>v. queueby v = t) queue"
    and k: "length (videos_of t (take j out)) < length (videos_of s queue)"
  shows "length (videos_of t (take j out)) < length (videos_of s (take j out))"
proof -
  have "mset out = mset queue"
    by (simp add: out_def mset_rounds_of_max mset_groups_of)
  then have "set out = set queue"
    by (rule mset_eq_setD)
  then have "t \<in> queueby ` set queue"
    using j tj by (metis imageI nth_mem)
  then obtain U1 U2 where us: "userNames_of queue = U1 @ s # U2" and t: "t \<in> set U2"
    using userNames_of_first_met [OF s lt] by blast
  have ts: "t \<noteq> s" using lt by auto
  have tk: "take (Suc j) out = take j out @ [out ! j]"
    by (rule take_Suc_conv_app_nth [OF j])
  have ct: "length (videos_of t (take (Suc j) out)) = Suc (length (videos_of t (take j out)))"
    using tj by (simp add: tk videos_of_append videos_of_def)
  have cs: "length (videos_of s (take (Suc j) out)) = length (videos_of s (take j out))"
    using tj ts by (simp add: tk videos_of_append videos_of_def)
  from rounds_prefix_balanced [OF us t, of "Suc j" "maxVideos_of (groups_of queue)"]
  have "min (length (videos_of t (take (Suc j) out))) (length (videos_of s queue)) \<le>
        length (videos_of s (take (Suc j) out))"
    by (simp only: out_def)
  then show ?thesis
    unfolding ct cs using k by simp
qed

section \<open>The handlers: facts\<close>

lemma findIndex_lt: "findIndex P xs < int (length xs)"
  by (induction xs) (auto simp: Let_def)

lemma splice_remove_one:
  assumes "xs \<noteq> []" and "- 1 \<le> s" and "s < int (length xs)"
  shows "\<exists>x ys. splice s 1 [] xs = ([x], ys) \<and> Suc (length ys) = length xs"
proof -
  define n where "n = (if s < 0 then length xs - 1 else nat s)"
  have n: "n < length xs"
    using assms by (auto simp: n_def)
  have start: "nat (if s < 0 then max (int (length xs) + s) 0 else min s (int (length xs))) = n"
    using assms by (auto simp: n_def)
  have dc: "min (Suc 0) (length xs - n) = Suc 0"
    using n by simp
  have dr: "drop n xs = xs ! n # drop (Suc n) xs"
    using n by (simp add: Cons_nth_drop_Suc)
  have "splice s 1 [] xs = ([xs ! n], take n xs @ drop (Suc n) xs)"
    by (simp add: splice_def Let_def start dc dr)
  moreover have "Suc (length (take n xs @ drop (Suc n) xs)) = length xs"
    using n by simp
  ultimately show ?thesis by blast
qed

lemma splice_insert_length: "length (snd (splice s 0 [v] xs)) = Suc (length xs)"
  by (simp add: splice_def Let_def)

lemma sortCytube_loop_returns:
  "length rest + i \<le> length toSort \<Longrightarrow>
   \<exists>ts refs' out'.
     sortCytube_loop en rest i prev (toSort, refs, out) = Inr (ts, refs', out') \<and>
     (\<forall>e \<in> set out'. e \<in> set out \<or> (\<exists>f a. e = EmitMoveMedia f a))"
proof (induction rest arbitrary: i prev toSort refs out)
  case Nil
  then show ?case by simp
next
  case (Cons t rest)
  have i: "\<not> length toSort \<le> i" using Cons.prems by simp
  then have ne: "toSort \<noteq> []" by auto
  show ?case
  proof (cases "prev \<noteq> - 1 \<and> uid t \<noteq> uid (toSort ! i)")
    case True
    let ?idx = "findIndex (\<lambda>video. uid video = uid t) toSort"
    obtain x ys where sp: "splice ?idx 1 [] toSort = ([x], ys)" and len: "Suc (length ys) = length toSort"
      using splice_remove_one [OF ne findIndex_ge findIndex_lt] by blast
    let ?ts = "snd (splice (int i) 0 [x] ys)"
    let ?refs = "recordRef en refs (uid t) prev"
    let ?out = "out @ [EmitMoveMedia (uid t) prev]"
    have "length rest + Suc i \<le> length ?ts"
      using Cons.prems len by (simp add: splice_insert_length)
    from Cons.IH [OF this, of "uid t" ?refs ?out]
    obtain ts refs' out' where
      run: "sortCytube_loop en rest (Suc i) (uid t) (?ts, ?refs, ?out) = Inr (ts, refs', out')"
      and only: "\<forall>e \<in> set out'. e \<in> set ?out \<or> (\<exists>f a. e = EmitMoveMedia f a)"
      by blast
    have "sortCytube_loop en (t # rest) i prev (toSort, refs, out) = Inr (ts, refs', out')"
      using i True sp run by (simp add: Let_def)
    moreover have "\<forall>e \<in> set out'. e \<in> set out \<or> (\<exists>f a. e = EmitMoveMedia f a)"
      using only by auto
    ultimately show ?thesis by blast
  next
    case False
    have "length rest + Suc i \<le> length toSort" using Cons.prems by simp
    from Cons.IH [OF this, of "uid t" refs out]
    obtain ts refs' out' where
      run: "sortCytube_loop en rest (Suc i) (uid t) (toSort, refs, out) = Inr (ts, refs', out')"
      and only: "\<forall>e \<in> set out'. e \<in> set out \<or> (\<exists>f a. e = EmitMoveMedia f a)"
      by blast
    have "sortCytube_loop en (t # rest) i prev (toSort, refs, out) = Inr (ts, refs', out')"
      using i False run by (auto simp: Let_def)
    with only show ?thesis by blast
  qed
qed

lemma sortCytube_returns:
  assumes "length target \<le> length (VideoQueue context)"
  shows "\<exists>refs' out.
           sortCytube context target =
             Inr (context\<lparr>moveVideoRefCounter := refs', VideoQueue := target\<rparr>, out) \<and>
           (\<forall>e \<in> set out. \<exists>f a. e = EmitMoveMedia f a)"
proof -
  obtain ts refs' out' where
    "sortCytube_loop (isAutoSortEnabled context) target 0 (- 1)
       (VideoQueue context, moveVideoRefCounter context, []) = Inr (ts, refs', out')"
    and "\<forall>e \<in> set out'. e \<in> set [] \<or> (\<exists>f a. e = EmitMoveMedia f a)"
    using sortCytube_loop_returns [of target 0 "VideoQueue context" "isAutoSortEnabled context"
        "- 1" "moveVideoRefCounter context" "[]"] assms
    by auto
  then show ?thesis
    by (intro exI [of _ refs'] exI [of _ out']) (simp add: sortCytube_def)
qed

lemma resort_returns:
  "\<exists>sorted' refs' out.
     roundRobinSortVideos context = Inr sorted' \<and>
     resort context = Inr (context\<lparr>moveVideoRefCounter := refs', VideoQueue := sorted'\<rparr>, out) \<and>
     (\<forall>e \<in> set out. \<exists>f a. e = EmitMoveMedia f a)"
proof -
  obtain sorted' where rr: "roundRobinSortVideos context = Inr sorted'"
    and ms: "mset sorted' = mset (VideoQueue context)"
    using roundRobinSortVideos_mset by blast
  have "length sorted' \<le> length (VideoQueue context)"
    using ms by (metis mset_eq_length order_refl)
  from sortCytube_returns [OF this] rr show ?thesis
    by (simp add: resort_def)
qed



subsection \<open>The steps of sortCytube in program order\<close>

lemma emitted_by_append: "emitted_by (xs @ ys) = emitted_by xs @ emitted_by ys"
  by (induction xs rule: emitted_by.induct) auto

lemma stored_by_append: "stored_by (xs @ ys) refs = stored_by ys (stored_by xs refs)"
proof (induction xs arbitrary: refs)
  case Nil
  then show ?case by simp
next
  case (Cons x xs)
  then show ?case by (cases x) (simp_all add: fun_upd_def)
qed




lemma relocate_to_front:
  assumes f: "fromUid \<in> Some ` uid ` set queue" and a: "afterUid \<notin> Some ` uid ` set queue"
  shows "\<exists>v rest. Some (uid v) = fromUid \<and> v \<in> set queue \<and>
           relocate fromUid afterUid queue = Some (v # rest) \<and> mset (v # rest) = mset queue"
proof -
  have "0 \<le> findIndex (\<lambda>video. Some (uid video) = fromUid) queue"
  proof (rule ccontr)
    assume "\<not> 0 \<le> findIndex (\<lambda>video. Some (uid video) = fromUid) queue"
    moreover obtain y where "y \<in> set queue" "Some (uid y) = fromUid" using f by auto
    ultimately show False
      using findIndex_early [of y queue "\<lambda>video. Some (uid video) = fromUid" "[]"] by simp
  qed
  then obtain A v B where q: "queue = A @ v # B" and v: "Some (uid v) = fromUid"
    and fi: "findIndex (\<lambda>video. Some (uid video) = fromUid) queue = int (length A)"
    using findIndex_found [of "\<lambda>video. Some (uid video) = fromUid" queue] by blast
  have sp: "splice (int (length A)) 1 [] (A @ v # B) = ([v], A @ B)"
    by (rule splice_remove_at)
  have "\<forall>x \<in> set (A @ B). Some (uid x) \<noteq> afterUid"
    using a q by auto
  then have ai: "findIndex (\<lambda>video. Some (uid video) = afterUid) (A @ B) = - 1"
    by (intro findIndex_miss) simp
  have ins: "splice 0 0 [v] (A @ B) = ([], v # A @ B)"
    by (simp add: splice_def Let_def)
  have nth: "(A @ v # B) ! nat (int (length A)) = v"
    by simp
  have "relocate fromUid afterUid queue = Some (v # A @ B)"
    unfolding relocate_def q [symmetric] fi
    unfolding q
    by (simp only: Let_def sp ai nth snd_conv of_nat_0_le_iff if_True option.case)
       (simp add: ins)
  then show ?thesis
    using v q by (intro exI [of _ v] exI [of _ "A @ B"]) simp
qed

lemma resort_front:
  "\<exists>context' out. resort (c\<lparr>VideoQueue := v # rest\<rparr>) = Inr (context', out) \<and>
     roundRobinSortVideos (c\<lparr>VideoQueue := v # rest\<rparr>) = Inr (VideoQueue context') \<and>
     hd (VideoQueue context') = v"
proof -
  let ?c = "c\<lparr>VideoQueue := v # rest\<rparr>"
  obtain sorted' refs' out where rr: "roundRobinSortVideos ?c = Inr sorted'"
    and rs: "resort ?c = Inr (?c\<lparr>moveVideoRefCounter := refs', VideoQueue := sorted'\<rparr>, out)"
    using resort_returns [of ?c] by blast
  have "hd sorted' = v"
    using roundRobinSortVideos_hd [of ?c] rr by simp
  with rr rs show ?thesis by simp
qed

section \<open>The claims\<close>

text \<open>
  C1 (amended). For every pair of item lists (current, target) with pairwise-distinct
  uids, none of them \<open>-1\<close>, where target is a permutation of current with the same first
  item: \<open>sortCytube\<close> returns, and applying the move commands it emitted, one at a time
  in emission order, each taking the item with uid \<open>from\<close> out and putting it back
  just after the item with uid \<open>after\<close>, turns current into exactly target.
\<close>

theorem sortCytube_moves_reach_target:
  assumes "distinct (map uid current)" and "mset target = mset current"
    and "hd target = hd current" and "\<forall>v \<in> set current. uid v \<noteq> - 1"
  shows "\<exists>context' out.
           sortCytube (context\<lparr>VideoQueue := current\<rparr>) target = Inr (context', out) \<and>
           VideoQueue context' = target \<and>
           apply_moves (moves_of out) current = Some target"
  using assms by (rule sortCytube_diff_correct)

text \<open>
  The scenario of the specification: the queue A (u1), C (u1), B (u2) and the target
  A, B, C.
\<close>

theorem sortCytube_moves_reach_target_witness:
  "distinct (map uid [mkItem 1 ''u1'', mkItem 3 ''u1'', mkItem 2 ''u2'']) \<and>
   mset [mkItem 1 ''u1'', mkItem 2 ''u2'', mkItem 3 ''u1''] =
     mset [mkItem 1 ''u1'', mkItem 3 ''u1'', mkItem 2 ''u2''] \<and>
   (\<exists>context' out.
      sortCytube (mkContext [mkItem 1 ''u1'', mkItem 3 ''u1'', mkItem 2 ''u2''] True)
        [mkItem 1 ''u1'', mkItem 2 ''u2'', mkItem 3 ''u1''] = Inr (context', out) \<and>
      VideoQueue context' = [mkItem 1 ''u1'', mkItem 2 ''u2'', mkItem 3 ''u1''] \<and>
      apply_moves (moves_of out) [mkItem 1 ''u1'', mkItem 3 ''u1'', mkItem 2 ''u2''] =
        Some [mkItem 1 ''u1'', mkItem 2 ''u2'', mkItem 3 ''u1''])"
proof -
  let ?cur = "[mkItem 1 ''u1'', mkItem 3 ''u1'', mkItem 2 ''u2'']"
  let ?tgt = "[mkItem 1 ''u1'', mkItem 2 ''u2'', mkItem 3 ''u1'']"
  have d: "distinct (map uid ?cur)" by (simp add: mkItem_def)
  have m: "mset ?tgt = mset ?cur" by simp
  have h: "hd ?tgt = hd ?cur" by simp
  have n: "\<forall>v \<in> set ?cur. uid v \<noteq> - 1" by (simp add: mkItem_def)
  have c: "(mkContext ?cur True)\<lparr>VideoQueue := ?cur\<rparr> = mkContext ?cur True"
    by (simp add: mkContext_def)
  show ?thesis
    using sortCytube_moves_reach_target [OF d m h n, of "mkContext ?cur True"] d m
    unfolding c by simp
qed

text \<open>
  C1 as stated fails. With the queue 1, 2, 3 and the target 3, 2, 1 (the first items
  differ) the one command emitted is "1 after 2", which gives 2, 1, 3. With the queue
  5, -1, 7, 8, 9 and the target 5, -1, 9, 8, 7 (an item has uid \<open>-1\<close>) the one command
  emitted is "7 after 8", which gives 5, -1, 8, 7, 9.
\<close>

theorem sortCytube_moves_counterexample:
  "distinct (map uid [mkItem 1 ''u'', mkItem 2 ''u'', mkItem 3 ''u'']) \<and>
   mset [mkItem 3 ''u'', mkItem 2 ''u'', mkItem 1 ''u''] =
     mset [mkItem 1 ''u'', mkItem 2 ''u'', mkItem 3 ''u''] \<and>
   sortCytube (mkContext [mkItem 1 ''u'', mkItem 2 ''u'', mkItem 3 ''u''] False)
       [mkItem 3 ''u'', mkItem 2 ''u'', mkItem 1 ''u''] =
     Inr (mkContext [mkItem 3 ''u'', mkItem 2 ''u'', mkItem 1 ''u''] False, [EmitMoveMedia 1 2]) \<and>
   apply_moves (moves_of [EmitMoveMedia 1 2]) [mkItem 1 ''u'', mkItem 2 ''u'', mkItem 3 ''u''] =
     Some [mkItem 2 ''u'', mkItem 1 ''u'', mkItem 3 ''u''] \<and>
   [mkItem 2 ''u'', mkItem 1 ''u'', mkItem 3 ''u''] \<noteq> [mkItem 3 ''u'', mkItem 2 ''u'', mkItem 1 ''u''] \<and>
   distinct (map uid [mkItem 5 ''u'', mkItem (- 1) ''u'', mkItem 7 ''u'', mkItem 8 ''u'', mkItem 9 ''u'']) \<and>
   mset [mkItem 5 ''u'', mkItem (- 1) ''u'', mkItem 9 ''u'', mkItem 8 ''u'', mkItem 7 ''u''] =
     mset [mkItem 5 ''u'', mkItem (- 1) ''u'', mkItem 7 ''u'', mkItem 8 ''u'', mkItem 9 ''u''] \<and>
   sortCytube
       (mkContext [mkItem 5 ''u'', mkItem (- 1) ''u'', mkItem 7 ''u'', mkItem 8 ''u'', mkItem 9 ''u''] False)
       [mkItem 5 ''u'', mkItem (- 1) ''u'', mkItem 9 ''u'', mkItem 8 ''u'', mkItem 7 ''u''] =
     Inr (mkContext [mkItem 5 ''u'', mkItem (- 1) ''u'', mkItem 9 ''u'', mkItem 8 ''u'', mkItem 7 ''u''] False,
          [EmitMoveMedia 7 8]) \<and>
   apply_moves (moves_of [EmitMoveMedia 7 8])
       [mkItem 5 ''u'', mkItem (- 1) ''u'', mkItem 7 ''u'', mkItem 8 ''u'', mkItem 9 ''u''] =
     Some [mkItem 5 ''u'', mkItem (- 1) ''u'', mkItem 8 ''u'', mkItem 7 ''u'', mkItem 9 ''u''] \<and>
   [mkItem 5 ''u'', mkItem (- 1) ''u'', mkItem 8 ''u'', mkItem 7 ''u'', mkItem 9 ''u''] \<noteq>
     [mkItem 5 ''u'', mkItem (- 1) ''u'', mkItem 9 ''u'', mkItem 8 ''u'', mkItem 7 ''u'']"
  by (simp add: mkItem_def mkContext_def sortCytube_def relocate_def splice_def recordRef_def Let_def)

text \<open>
  C7. \<open>onErrorMsg\<close> throws (an \<open>Error\<close> carrying the message, nothing emitted, nothing
  retried) exactly when the message contains, case-insensitively, one of the five fatal
  phrases; on any other message it writes the message to the console and returns with
  the context as it was.
\<close>

theorem onErrorMsg_fatal_iff:
  "(onErrorMsg context msg = Inl (Error msg, []) \<longleftrightarrow>
      (\<exists>phrase \<in> set criticalErrors. contains_ci msg phrase)) \<and>
   (onErrorMsg context msg = Inr (context, [ConsoleError msg]) \<longleftrightarrow>
      \<not> (\<exists>phrase \<in> set criticalErrors. contains_ci msg phrase)) \<and>
   criticalErrors =
     [''Invalid channel name'', ''blocked anonymous users'', ''Unable to join channel'',
      ''Channel could not be loaded'', ''Invalid login'']"
  by (simp add: onErrorMsg_def list_ex_iff includes_lower_iff criticalErrors_def)

theorem onErrorMsg_fatal_iff_witness:
  "onErrorMsg (mkContext [] True) ''INVALID Login.'' = Inl (Error ''INVALID Login.'', []) \<and>
   onErrorMsg (mkContext [] True) ''Slow down'' =
     Inr (mkContext [] True, [ConsoleError ''Slow down''])"
proof -
  have "\<exists>phrase \<in> set criticalErrors. contains_ci ''INVALID Login.'' phrase"
    using includes_invalid_login by (simp add: list_ex_iff includes_lower_iff)
  moreover have "\<not> (\<exists>phrase \<in> set criticalErrors. contains_ci ''Slow down'' phrase)"
    using not_includes_slow_down by (simp add: list_ex_iff includes_lower_iff)
  ultimately show ?thesis
    using onErrorMsg_fatal_iff [of "mkContext [] True" "''INVALID Login.''"]
      onErrorMsg_fatal_iff [of "mkContext [] True" "''Slow down''"]
    by blast
qed

text \<open>
  C2. For every queue, \<open>roundRobinSortVideos\<close> returns a permutation of it (the same
  items, hence the same multiset of uids); for the empty queue it returns the empty list,
  and it never throws.
\<close>

theorem roundRobinSortVideos_permutation:
  "(\<exists>sorted'. roundRobinSortVideos context = Inr sorted' \<and>
      mset sorted' = mset (VideoQueue context) \<and>
      mset (map uid sorted') = mset (map uid (VideoQueue context))) \<and>
   (VideoQueue context = [] \<longrightarrow> roundRobinSortVideos context = Inr [])"
proof -
  obtain sorted' where rr: "roundRobinSortVideos context = Inr sorted'"
    and ms: "mset sorted' = mset (VideoQueue context)"
    using roundRobinSortVideos_mset by blast
  have "mset (map uid sorted') = mset (map uid (VideoQueue context))"
    using ms by (metis mset_map)
  moreover have "VideoQueue context = [] \<longrightarrow> sorted' = []"
    using ms by auto
  ultimately show ?thesis using rr ms by simp
qed

theorem roundRobinSortVideos_permutation_witness:
  "roundRobinSortVideos (mkContext [] True) = Inr [] \<and>
   roundRobinSortVideos (mkContext [mkItem 1 ''u1'', mkItem 3 ''u1'', mkItem 2 ''u2''] True) =
     Inr [mkItem 1 ''u1'', mkItem 2 ''u2'', mkItem 3 ''u1''] \<and>
   mset [mkItem 1 ''u1'', mkItem 2 ''u2'', mkItem 3 ''u1''] =
     mset [mkItem 1 ''u1'', mkItem 3 ''u1'', mkItem 2 ''u2'']"
proof -
  have e: "VideoQueue (mkContext [] True) = []"
    by (simp add: mkContext_def)
  have "roundRobinSortVideos (mkContext [] True) = Inr []"
    using roundRobinSortVideos_permutation [of "mkContext [] True"] e by blast
  moreover have "roundRobinSortVideos (mkContext [mkItem 1 ''u1'', mkItem 3 ''u1'', mkItem 2 ''u2''] True) =
     Inr [mkItem 1 ''u1'', mkItem 2 ''u2'', mkItem 3 ''u1'']"
    by (simp add: roundRobinSortVideos_def initUserMap_def maxVideos_of_def mkContext_def
          mkItem_def Let_def)
  ultimately show ?thesis by simp
qed

text \<open>
  C3. \<open>roundRobinSortVideos\<close> returns the rounds in order, round \<open>k\<close> holding the \<open>k\<close>-th
  video of every submitter that has one, submitters in the order they are first met in
  the queue. So the videos of any one submitter come out in the order they had in the
  queue; and when position \<open>j\<close> of the output holds the \<open>k\<close>-th video of submitter \<open>t\<close>
  (\<open>k\<close> videos of \<open>t\<close> come before it), every submitter \<open>s\<close> first met before \<open>t\<close> that
  has a \<open>k\<close>-th video has it before position \<open>j\<close>.
\<close>

theorem roundRobinSortVideos_fair:
  "\<exists>sorted'.
     roundRobinSortVideos context = Inr sorted' \<and>
     sorted' = rounds_of (maxVideos_of (groups_of (VideoQueue context)))
                 (groups_of (VideoQueue context)) \<and>
     (\<forall>u. videos_of u sorted' = videos_of u (VideoQueue context)) \<and>
     (\<forall>s t j.
        j < length sorted' \<and> queueby (sorted' ! j) = t \<and>
        0 \<le> findIndex (\<lambda>v. queueby v = s) (VideoQueue context) \<and>
        findIndex (\<lambda>v. queueby v = s) (VideoQueue context) <
          findIndex (\<lambda>v. queueby v = t) (VideoQueue context) \<and>
        length (videos_of t (take j sorted')) < length (videos_of s (VideoQueue context))
        \<longrightarrow> length (videos_of t (take j sorted')) < length (videos_of s (take j sorted')))"
  using rounds_fair [of _ "VideoQueue context"]
  by (simp add: roundRobinSortVideos_eq roundRobinSortVideos_keeps_order)

theorem roundRobinSortVideos_fair_witness:
  "roundRobinSortVideos
     (mkContext [mkItem 1 ''u1'', mkItem 3 ''u1'', mkItem 2 ''u2'', mkItem 4 ''u2''] True) =
     Inr [mkItem 1 ''u1'', mkItem 2 ''u2'', mkItem 3 ''u1'', mkItem 4 ''u2''] \<and>
   queueby ([mkItem 1 ''u1'', mkItem 2 ''u2'', mkItem 3 ''u1'', mkItem 4 ''u2''] ! 3) = ''u2'' \<and>
   findIndex (\<lambda>v. queueby v = ''u1'')
     [mkItem 1 ''u1'', mkItem 3 ''u1'', mkItem 2 ''u2'', mkItem 4 ''u2''] = 0 \<and>
   findIndex (\<lambda>v. queueby v = ''u2'')
     [mkItem 1 ''u1'', mkItem 3 ''u1'', mkItem 2 ''u2'', mkItem 4 ''u2''] = 2 \<and>
   length (videos_of ''u2''
     (take 3 [mkItem 1 ''u1'', mkItem 2 ''u2'', mkItem 3 ''u1'', mkItem 4 ''u2''])) = 1 \<and>
   length (videos_of ''u1''
     [mkItem 1 ''u1'', mkItem 3 ''u1'', mkItem 2 ''u2'', mkItem 4 ''u2'']) = 2 \<and>
   length (videos_of ''u2''
     (take 3 [mkItem 1 ''u1'', mkItem 2 ''u2'', mkItem 3 ''u1'', mkItem 4 ''u2''])) <
   length (videos_of ''u1''
     (take 3 [mkItem 1 ''u1'', mkItem 2 ''u2'', mkItem 3 ''u1'', mkItem 4 ''u2'']))"
proof -
  let ?q = "[mkItem 1 ''u1'', mkItem 3 ''u1'', mkItem 2 ''u2'', mkItem 4 ''u2'']"
  let ?o = "[mkItem 1 ''u1'', mkItem 2 ''u2'', mkItem 3 ''u1'', mkItem 4 ''u2'']"
  have q: "VideoQueue (mkContext ?q True) = ?q"
    by (simp add: mkContext_def)
  have rr: "roundRobinSortVideos (mkContext ?q True) = Inr ?o"
    by (simp add: roundRobinSortVideos_def initUserMap_def maxVideos_of_def mkContext_def
          mkItem_def Let_def)
  have h1: "(3::nat) < length ?o" by simp
  have h2: "queueby (?o ! 3) = ''u2''" by (simp add: mkItem_def)
  have h3: "findIndex (\<lambda>v. queueby v = ''u1'') ?q = 0" by (simp add: mkItem_def)
  have h4: "findIndex (\<lambda>v. queueby v = ''u2'') ?q = 2" by (simp add: mkItem_def Let_def)
  have h5: "length (videos_of ''u2'' (take 3 ?o)) = 1"
    by (simp add: videos_of_def mkItem_def numeral_3_eq_3)
  have h6: "length (videos_of ''u1'' ?q) = 2" by (simp add: videos_of_def mkItem_def)
  obtain sorted' where
    rr': "roundRobinSortVideos (mkContext ?q True) = Inr sorted'"
    and fair: "\<forall>s t j.
        j < length sorted' \<and> queueby (sorted' ! j) = t \<and>
        0 \<le> findIndex (\<lambda>v. queueby v = s) (VideoQueue (mkContext ?q True)) \<and>
        findIndex (\<lambda>v. queueby v = s) (VideoQueue (mkContext ?q True)) <
          findIndex (\<lambda>v. queueby v = t) (VideoQueue (mkContext ?q True)) \<and>
        length (videos_of t (take j sorted')) < length (videos_of s (VideoQueue (mkContext ?q True)))
        \<longrightarrow> length (videos_of t (take j sorted')) < length (videos_of s (take j sorted'))"
    using roundRobinSortVideos_fair [of "mkContext ?q True"] by blast
  have s: "sorted' = ?o" using rr rr' by simp
  have imp: "3 < length ?o \<and> queueby (?o ! 3) = ''u2'' \<and>
        0 \<le> findIndex (\<lambda>v. queueby v = ''u1'') ?q \<and>
        findIndex (\<lambda>v. queueby v = ''u1'') ?q < findIndex (\<lambda>v. queueby v = ''u2'') ?q \<and>
        length (videos_of ''u2'' (take 3 ?o)) < length (videos_of ''u1'' ?q)
        \<longrightarrow> length (videos_of ''u2'' (take 3 ?o)) < length (videos_of ''u1'' (take 3 ?o))"
    using fair [THEN spec, of "''u1''", THEN spec, of "''u2''", THEN spec, of 3]
    unfolding s q .
  have pre: "3 < length ?o \<and> queueby (?o ! 3) = ''u2'' \<and>
        0 \<le> findIndex (\<lambda>v. queueby v = ''u1'') ?q \<and>
        findIndex (\<lambda>v. queueby v = ''u1'') ?q < findIndex (\<lambda>v. queueby v = ''u2'') ?q \<and>
        length (videos_of ''u2'' (take 3 ?o)) < length (videos_of ''u1'' ?q)"
    using h1 h2 h3 h4 h5 h6 by simp
  have "length (videos_of ''u2'' (take 3 ?o)) < length (videos_of ''u1'' (take 3 ?o))"
    by (rule mp [OF imp pre])
  with rr h2 h3 h4 h5 h6 show ?thesis by blast
qed

text \<open>
  C8. When the queue, with pairwise-distinct uids, already is its own round-robin order,
  \<open>sortCytube\<close> run on it with that order as target emits nothing and leaves the context
  as it is; so does the resort that every handler ends with.
\<close>

theorem sortCytube_sorted_emits_nothing:
  assumes "distinct (map uid (VideoQueue context))"
    and "roundRobinSortVideos context = Inr (VideoQueue context)"
  shows "sortCytube context (VideoQueue context) = Inr (context, []) \<and>
         resort context = Inr (context, [])"
  using assms by (simp add: resort_def sortCytube_same)

theorem sortCytube_sorted_emits_nothing_witness:
  "distinct (map uid [mkItem 1 ''u1'', mkItem 2 ''u2'', mkItem 3 ''u1'']) \<and>
   roundRobinSortVideos (mkContext [mkItem 1 ''u1'', mkItem 2 ''u2'', mkItem 3 ''u1''] True) =
     Inr [mkItem 1 ''u1'', mkItem 2 ''u2'', mkItem 3 ''u1''] \<and>
   sortCytube (mkContext [mkItem 1 ''u1'', mkItem 2 ''u2'', mkItem 3 ''u1''] True)
       [mkItem 1 ''u1'', mkItem 2 ''u2'', mkItem 3 ''u1''] =
     Inr (mkContext [mkItem 1 ''u1'', mkItem 2 ''u2'', mkItem 3 ''u1''] True, []) \<and>
   resort (mkContext [mkItem 1 ''u1'', mkItem 2 ''u2'', mkItem 3 ''u1''] True) =
     Inr (mkContext [mkItem 1 ''u1'', mkItem 2 ''u2'', mkItem 3 ''u1''] True, [])"
proof -
  let ?q = "[mkItem 1 ''u1'', mkItem 2 ''u2'', mkItem 3 ''u1'']"
  have q: "VideoQueue (mkContext ?q True) = ?q"
    by (simp add: mkContext_def)
  have d: "distinct (map uid (VideoQueue (mkContext ?q True)))"
    by (simp add: mkContext_def mkItem_def)
  have rr: "roundRobinSortVideos (mkContext ?q True) = Inr (VideoQueue (mkContext ?q True))"
    by (simp add: roundRobinSortVideos_def initUserMap_def maxVideos_of_def mkContext_def
          mkItem_def Let_def)
  from sortCytube_sorted_emits_nothing [OF d rr] d rr show ?thesis
    by (simp add: q)
qed

text \<open>
  C10 (amended). With auto-sort enabled, a move notification that is not the echo of a
  recorded command, whose \<open>from\<close> uid is in the mirror and whose \<open>after\<close> uid is not:
  no error, the item with uid \<open>from\<close> is put at index 0 of the mirror (the other items
  keep their order), then the mirror is resorted and the moves are emitted as for any
  other change, and afterwards that item is still first. In either mode, an insert
  notification whose \<open>after\<close> is neither the string "prepend" nor a uid of the mirror:
  no error, the new item is put at index 0, the mirror is resorted, and the new item is
  first afterwards.
\<close>

theorem absent_after_goes_to_front:
  "(isAutoSortEnabled context \<and>
    moveVideoRefCounter context (JSON_stringify moved) \<noteq> Some True \<and>
    from_uid moved \<in> Some ` uid ` set (VideoQueue context) \<and>
    after_uid moved \<notin> Some ` uid ` set (VideoQueue context) \<longrightarrow>
      (\<exists>v rest context' out.
         Some (uid v) = from_uid moved \<and> v \<in> set (VideoQueue context) \<and>
         relocate (from_uid moved) (after_uid moved) (VideoQueue context) = Some (v # rest) \<and>
         mset (v # rest) = mset (VideoQueue context) \<and>
         onMoveVideoCallback context moved = resort (context\<lparr>VideoQueue := v # rest\<rparr>) \<and>
         onMoveVideoCallback context moved = Inr (context', out) \<and>
         roundRobinSortVideos (context\<lparr>VideoQueue := v # rest\<rparr>) = Inr (VideoQueue context') \<and>
         hd (VideoQueue context') = v)) \<and>
   (after queued \<noteq> AfterString ''prepend'' \<and>
    (\<forall>video \<in> set (VideoQueue context). AfterNumber (uid video) \<noteq> after queued) \<longrightarrow>
      (\<exists>context' out.
         onQueueCallback context queued =
           resort (context\<lparr>VideoQueue := item queued # VideoQueue context\<rparr>) \<and>
         onQueueCallback context queued = Inr (context', out) \<and>
         roundRobinSortVideos (context\<lparr>VideoQueue := item queued # VideoQueue context\<rparr>) =
           Inr (VideoQueue context') \<and>
         hd (VideoQueue context') = item queued))"
proof (intro conjI impI)
  assume h: "isAutoSortEnabled context \<and>
    moveVideoRefCounter context (JSON_stringify moved) \<noteq> Some True \<and>
    from_uid moved \<in> Some ` uid ` set (VideoQueue context) \<and>
    after_uid moved \<notin> Some ` uid ` set (VideoQueue context)"
  then obtain v rest where v: "Some (uid v) = from_uid moved" "v \<in> set (VideoQueue context)"
    and rel: "relocate (from_uid moved) (after_uid moved) (VideoQueue context) = Some (v # rest)"
    and ms: "mset (v # rest) = mset (VideoQueue context)"
    using relocate_to_front [of "from_uid moved" "VideoQueue context" "after_uid moved"] by blast
  have cb: "onMoveVideoCallback context moved = resort (context\<lparr>VideoQueue := v # rest\<rparr>)"
    using h rel by (simp add: onMoveVideoCallback_def Let_def)
  obtain context' out where
    "resort (context\<lparr>VideoQueue := v # rest\<rparr>) = Inr (context', out)"
    "roundRobinSortVideos (context\<lparr>VideoQueue := v # rest\<rparr>) = Inr (VideoQueue context')"
    "hd (VideoQueue context') = v"
    using resort_front [where c = "context" and v = v and rest = rest] by blast
  with v rel ms cb show "\<exists>v rest context' out.
         Some (uid v) = from_uid moved \<and> v \<in> set (VideoQueue context) \<and>
         relocate (from_uid moved) (after_uid moved) (VideoQueue context) = Some (v # rest) \<and>
         mset (v # rest) = mset (VideoQueue context) \<and>
         onMoveVideoCallback context moved = resort (context\<lparr>VideoQueue := v # rest\<rparr>) \<and>
         onMoveVideoCallback context moved = Inr (context', out) \<and>
         roundRobinSortVideos (context\<lparr>VideoQueue := v # rest\<rparr>) = Inr (VideoQueue context') \<and>
         hd (VideoQueue context') = v"
    by (intro exI [of _ v] exI [of _ rest] exI [of _ context'] exI [of _ out]) simp
next
  assume h: "after queued \<noteq> AfterString ''prepend'' \<and>
    (\<forall>video \<in> set (VideoQueue context). AfterNumber (uid video) \<noteq> after queued)"
  then have "findIndex (\<lambda>video. AfterNumber (uid video) = after queued) (VideoQueue context) = - 1"
    by (intro findIndex_miss) simp
  then have cb: "onQueueCallback context queued =
           resort (context\<lparr>VideoQueue := item queued # VideoQueue context\<rparr>)"
    using h by (simp add: onQueueCallback_def Let_def splice_def)
  obtain context' out where
    "resort (context\<lparr>VideoQueue := item queued # VideoQueue context\<rparr>) = Inr (context', out)"
    "roundRobinSortVideos (context\<lparr>VideoQueue := item queued # VideoQueue context\<rparr>) =
       Inr (VideoQueue context')"
    "hd (VideoQueue context') = item queued"
    using resort_front [where c = "context" and v = "item queued" and rest = "VideoQueue context"] by blast
  with cb show "\<exists>context' out.
         onQueueCallback context queued =
           resort (context\<lparr>VideoQueue := item queued # VideoQueue context\<rparr>) \<and>
         onQueueCallback context queued = Inr (context', out) \<and>
         roundRobinSortVideos (context\<lparr>VideoQueue := item queued # VideoQueue context\<rparr>) =
           Inr (VideoQueue context') \<and>
         hd (VideoQueue context') = item queued"
    by (intro exI [of _ context'] exI [of _ out]) simp
qed

theorem absent_after_goes_to_front_witness:
  "isAutoSortEnabled (mkContext [mkItem 1 ''u1'', mkItem 2 ''u2''] True) \<and>
   moveVideoRefCounter (mkContext [mkItem 1 ''u1'', mkItem 2 ''u2''] True)
     (JSON_stringify [(''from'', 2), (''after'', 9)]) \<noteq> Some True \<and>
   from_uid [(''from'', 2), (''after'', 9)] = Some 2 \<and>
   after_uid [(''from'', 2), (''after'', 9)] = Some 9 \<and>
   2 \<in> uid ` set [mkItem 1 ''u1'', mkItem 2 ''u2''] \<and>
   9 \<notin> uid ` set [mkItem 1 ''u1'', mkItem 2 ''u2''] \<and>
   (\<exists>context' out.
      onMoveVideoCallback (mkContext [mkItem 1 ''u1'', mkItem 2 ''u2''] True)
        [(''from'', 2), (''after'', 9)] = Inr (context', out) \<and>
      hd (VideoQueue context') = mkItem 2 ''u2'') \<and>
   AfterNumber 9 \<noteq> AfterString ''prepend'' \<and>
   (\<exists>context' out.
      onQueueCallback (mkContext [mkItem 1 ''u1'', mkItem 2 ''u2''] True)
        \<lparr>item = mkItem 3 ''u3'', after = AfterNumber 9\<rparr> = Inr (context', out) \<and>
      hd (VideoQueue context') = mkItem 3 ''u3'')"
proof -
  let ?c = "mkContext [mkItem 1 ''u1'', mkItem 2 ''u2''] True"
  let ?m = "[(''from'', 2), (''after'', 9)] :: MoveVideoResponse"
  let ?q = "\<lparr>item = mkItem 3 ''u3'', after = AfterNumber 9\<rparr> :: unit QueueResponse"
  have h1: "isAutoSortEnabled ?c \<and>
    moveVideoRefCounter ?c (JSON_stringify ?m) \<noteq> Some True \<and>
    from_uid ?m \<in> Some ` uid ` set (VideoQueue ?c) \<and>
    after_uid ?m \<notin> Some ` uid ` set (VideoQueue ?c)"
    by (simp add: mkContext_def mkItem_def from_uid_def after_uid_def)
  have h2: "after ?q \<noteq> AfterString ''prepend'' \<and>
    (\<forall>video \<in> set (VideoQueue ?c). AfterNumber (uid video) \<noteq> after ?q)"
    by (simp add: mkContext_def mkItem_def)
  note inst = absent_after_goes_to_front [of ?c ?m ?q]
  obtain v rest c1 o1 where
    v: "Some (uid v) = from_uid ?m" "v \<in> set (VideoQueue ?c)"
    and r1: "onMoveVideoCallback ?c ?m = Inr (c1, o1)" "hd (VideoQueue c1) = v"
    using inst [THEN conjunct1, THEN mp, OF h1] by blast
  have "v = mkItem 2 ''u2''"
    using v by (auto simp: mkContext_def mkItem_def from_uid_def)
  with r1 have move: "\<exists>context' out. onMoveVideoCallback ?c ?m = Inr (context', out) \<and>
      hd (VideoQueue context') = mkItem 2 ''u2''"
    by blast
  obtain c2 o2 where "onQueueCallback ?c ?q = Inr (c2, o2)" "hd (VideoQueue c2) = item ?q"
    using inst [THEN conjunct2, THEN mp, OF h2] by blast
  then have ins: "\<exists>context' out. onQueueCallback ?c ?q = Inr (context', out) \<and>
      hd (VideoQueue context') = mkItem 3 ''u3''"
    by auto
  from h1 move ins show ?thesis
    by (simp add: mkContext_def mkItem_def from_uid_def after_uid_def)
qed

text \<open>
  C10 as stated fails. With auto-sort enabled and no item with uid \<open>from\<close> in the mirror
  the handler throws (empty mirror, and mirror of one item); with auto-sort disabled the
  notification is ignored and the item with uid 2 stays second.
\<close>

theorem absent_after_counterexample:
  "onMoveVideoCallback (mkContext [] True) [(''from'', 1), (''after'', 2)] = Inl (TypeError, []) \<and>
   onMoveVideoCallback (mkContext [mkItem 1 ''u1''] True) [(''from'', 5), (''after'', 9)] =
     Inl (TypeError, []) \<and>
   onMoveVideoCallback (mkContext [mkItem 1 ''u1'', mkItem 2 ''u2''] False)
       [(''from'', 2), (''after'', 9)] =
     Inr (mkContext [mkItem 1 ''u1'', mkItem 2 ''u2''] False, [])"
  by (simp add: onMoveVideoCallback_def mkContext_def mkItem_def relocate_def from_uid_def
        after_uid_def Let_def)

text \<open>
  C6 (amended). For every mirror and every delete notification whose uid is not in the
  mirror, \<open>onDeleteCallback\<close> signals no error and emits no resync request; with
  auto-sort disabled it leaves the context as it is and emits nothing.
\<close>

theorem onDeleteCallback_absent_uid:
  assumes "response_uid \<notin> uid ` set (VideoQueue context)"
  shows "(\<exists>context' out.
            onDeleteCallback context response_uid = Inr (context', out) \<and>
            EmitRequestPlaylist \<notin> set out) \<and>
         (\<not> isAutoSortEnabled context \<longrightarrow>
            onDeleteCallback context response_uid = Inr (context, []))"
proof (cases "isAutoSortEnabled context")
  case False
  then show ?thesis by (simp add: onDeleteCallback_def)
next
  case True
  let ?c = "context\<lparr>VideoQueue :=
              snd (splice (findIndex (\<lambda>video. uid video = response_uid) (VideoQueue context))
                     1 [] (VideoQueue context))\<rparr>"
  obtain sorted' refs' out where
    rs: "resort ?c = Inr (?c\<lparr>moveVideoRefCounter := refs', VideoQueue := sorted'\<rparr>, out)"
    and only: "\<forall>e \<in> set out. \<exists>f a. e = EmitMoveMedia f a"
    using resort_returns [of ?c] by blast
  have "EmitRequestPlaylist \<notin> set out"
    using only by auto
  with rs True show ?thesis
    by (simp add: onDeleteCallback_def Let_def)
qed

theorem onDeleteCallback_absent_uid_witness:
  "77 \<notin> uid ` set [mkItem 1 ''u1'', mkItem 2 ''u2''] \<and>
   (\<exists>context' out.
      onDeleteCallback (mkContext [mkItem 1 ''u1'', mkItem 2 ''u2''] True) 77 = Inr (context', out) \<and>
      EmitRequestPlaylist \<notin> set out) \<and>
   onDeleteCallback (mkContext [mkItem 1 ''u1'', mkItem 2 ''u2''] False) 77 =
     Inr (mkContext [mkItem 1 ''u1'', mkItem 2 ''u2''] False, [])"
proof -
  have a: "77 \<notin> uid ` set (VideoQueue (mkContext [mkItem 1 ''u1'', mkItem 2 ''u2''] True))"
    by (simp add: mkContext_def mkItem_def)
  have b: "77 \<notin> uid ` set (VideoQueue (mkContext [mkItem 1 ''u1'', mkItem 2 ''u2''] False))"
    by (simp add: mkContext_def mkItem_def)
  have c: "\<not> isAutoSortEnabled (mkContext [mkItem 1 ''u1'', mkItem 2 ''u2''] False)"
    by (simp add: mkContext_def)
  from onDeleteCallback_absent_uid [OF a] onDeleteCallback_absent_uid [OF b] c a
  show ?thesis by (simp add: mkContext_def)
qed

text \<open>
  C6 as stated fails. The mirror holds uids 1, 3, 2, 9 and uid 77 is deleted: the handler
  returns without an error and without a resync request, the last item (uid 9) is gone
  from the mirror, and the command "2 after 1" is emitted.
\<close>

theorem onDeleteCallback_absent_counterexample:
  "77 \<notin> uid ` set [mkItem 1 ''u1'', mkItem 3 ''u1'', mkItem 2 ''u2'', mkItem 9 ''u3''] \<and>
   onDeleteCallback
       (mkContext [mkItem 1 ''u1'', mkItem 3 ''u1'', mkItem 2 ''u2'', mkItem 9 ''u3''] True) 77 =
     Inr ((mkContext [mkItem 1 ''u1'', mkItem 2 ''u2'', mkItem 3 ''u1''] True)
            \<lparr>moveVideoRefCounter := recordRef True (moveVideoRefCounter (mkContext [] True)) 2 1\<rparr>,
          [EmitMoveMedia 2 1])"
  by (simp add: onDeleteCallback_def resort_def roundRobinSortVideos_def initUserMap_def
        maxVideos_of_def sortCytube_def splice_def mkContext_def mkItem_def Let_def)

text \<open>
  C5 (amended). While \<open>isAutoSortEnabled\<close> is false, a move notification and a delete
  notification leave the whole context as it is, the mirror included, and emit nothing;
  an insert notification leaves the mirror exactly as it does when auto-sort is enabled.
\<close>

theorem autosort_disabled:
  assumes "\<not> isAutoSortEnabled context"
  shows "onMoveVideoCallback context moved = Inr (context, []) \<and>
         onDeleteCallback context response_uid = Inr (context, []) \<and>
         (\<exists>c1 o1 c2 o2.
            onQueueCallback context queued = Inr (c1, o1) \<and>
            onQueueCallback (context\<lparr>isAutoSortEnabled := True\<rparr>) queued = Inr (c2, o2) \<and>
            VideoQueue c1 = VideoQueue c2)"
proof -
  define queue where "queue =
    (if after queued = AfterString ''prepend'' then item queued # VideoQueue context
     else snd (splice (findIndex (\<lambda>video. AfterNumber (uid video) = after queued)
                         (VideoQueue context) + 1) 0 [item queued] (VideoQueue context)))"
  let ?c1 = "context\<lparr>VideoQueue := queue\<rparr>"
  let ?c2 = "context\<lparr>isAutoSortEnabled := True, VideoQueue := queue\<rparr>"
  have cb1: "onQueueCallback context queued = resort ?c1"
    by (simp add: onQueueCallback_def Let_def queue_def)
  have cb2: "onQueueCallback (context\<lparr>isAutoSortEnabled := True\<rparr>) queued = resort ?c2"
    by (simp add: onQueueCallback_def Let_def queue_def)
  obtain s1 r1 o1 where rr1: "roundRobinSortVideos ?c1 = Inr s1"
    and rs1: "resort ?c1 = Inr (?c1\<lparr>moveVideoRefCounter := r1, VideoQueue := s1\<rparr>, o1)"
    using resort_returns [of ?c1] by blast
  obtain s2 r2 o2 where rr2: "roundRobinSortVideos ?c2 = Inr s2"
    and rs2: "resort ?c2 = Inr (?c2\<lparr>moveVideoRefCounter := r2, VideoQueue := s2\<rparr>, o2)"
    using resort_returns [of ?c2] by blast
  have "s1 = s2"
    using rr1 rr2 by (simp add: roundRobinSortVideos_eq)
  then have "\<exists>c1 o1 c2 o2.
            onQueueCallback context queued = Inr (c1, o1) \<and>
            onQueueCallback (context\<lparr>isAutoSortEnabled := True\<rparr>) queued = Inr (c2, o2) \<and>
            VideoQueue c1 = VideoQueue c2"
    unfolding cb1 cb2 rs1 rs2
    by (intro exI [of _ "?c1\<lparr>moveVideoRefCounter := r1, VideoQueue := s1\<rparr>"] exI [of _ o1]
          exI [of _ "?c2\<lparr>moveVideoRefCounter := r2, VideoQueue := s2\<rparr>"] exI [of _ o2]) simp
  then show ?thesis
    using assms by (simp add: onMoveVideoCallback_def onDeleteCallback_def)
qed

theorem autosort_disabled_witness:
  "\<not> isAutoSortEnabled (mkContext [mkItem 1 ''u1'', mkItem 3 ''u1''] False) \<and>
   onMoveVideoCallback (mkContext [mkItem 1 ''u1'', mkItem 3 ''u1''] False)
       [(''from'', 3), (''after'', 9)] =
     Inr (mkContext [mkItem 1 ''u1'', mkItem 3 ''u1''] False, []) \<and>
   onDeleteCallback (mkContext [mkItem 1 ''u1'', mkItem 3 ''u1''] False) 3 =
     Inr (mkContext [mkItem 1 ''u1'', mkItem 3 ''u1''] False, [])"
proof -
  have d: "\<not> isAutoSortEnabled (mkContext [mkItem 1 ''u1'', mkItem 3 ''u1''] False)"
    by (simp add: mkContext_def)
  from autosort_disabled [OF d, of "[(''from'', 3), (''after'', 9)]" 3] d
  show ?thesis by blast
qed

text \<open>
  C5 as stated fails. With auto-sort disabled a delete notification for uid 3, which is in
  the mirror, leaves the mirror as it is, while with auto-sort enabled it removes the
  item; and an insert notification is followed by the command "2 after 1" although
  auto-sort is disabled.
\<close>

theorem autosort_disabled_counterexample:
  "onDeleteCallback (mkContext [mkItem 1 ''u1'', mkItem 3 ''u1''] False) 3 =
     Inr (mkContext [mkItem 1 ''u1'', mkItem 3 ''u1''] False, []) \<and>
   onDeleteCallback (mkContext [mkItem 1 ''u1'', mkItem 3 ''u1''] True) 3 =
     Inr (mkContext [mkItem 1 ''u1''] True, []) \<and>
   onQueueCallback (mkContext [mkItem 1 ''u1'', mkItem 3 ''u1''] False)
       \<lparr>item = mkItem 2 ''u2'', after = AfterNumber 3\<rparr> =
     Inr (mkContext [mkItem 1 ''u1'', mkItem 2 ''u2'', mkItem 3 ''u1''] False, [EmitMoveMedia 2 1])"
  by (simp add: onDeleteCallback_def onQueueCallback_def resort_def roundRobinSortVideos_def
        initUserMap_def maxVideos_of_def sortCytube_def splice_def recordRef_def mkContext_def
        mkItem_def Let_def)




text \<open>
  C9 (amended). The output of \<open>roundRobinSortVideos\<close> on a non-empty queue has the same
  first item as the queue. For every pair (current, target) with pairwise-distinct uids,
  none of them \<open>-1\<close>, where target is a permutation of current with the same first item,
  the commands emitted by \<open>sortCytube\<close>, applied one at a time, turn current into exactly
  target. So for every queue with pairwise-distinct uids, none of them \<open>-1\<close>, the resort
  that ends each handler emits commands that turn the queue into its round-robin order.
\<close>

theorem sortCytube_correct_on_pipeline:
  "(VideoQueue context \<noteq> [] \<longrightarrow>
      (\<exists>sorted'. roundRobinSortVideos context = Inr sorted' \<and> sorted' \<noteq> [] \<and>
         hd sorted' = hd (VideoQueue context))) \<and>
   (distinct (map uid current) \<and> mset target = mset current \<and> hd target = hd current \<and>
    (\<forall>v \<in> set current. uid v \<noteq> - 1) \<longrightarrow>
      (\<exists>context' out.
         sortCytube (context\<lparr>VideoQueue := current\<rparr>) target = Inr (context', out) \<and>
         apply_moves (moves_of out) current = Some target)) \<and>
   (distinct (map uid (VideoQueue context)) \<and> (\<forall>v \<in> set (VideoQueue context). uid v \<noteq> - 1) \<longrightarrow>
      (\<exists>context' out.
         resort context = Inr (context', out) \<and>
         roundRobinSortVideos context = Inr (VideoQueue context') \<and>
         apply_moves (moves_of out) (VideoQueue context) = Some (VideoQueue context')))"
proof (intro conjI impI)
  assume "VideoQueue context \<noteq> []"
  then show "\<exists>sorted'. roundRobinSortVideos context = Inr sorted' \<and> sorted' \<noteq> [] \<and>
         hd sorted' = hd (VideoQueue context)"
    by (rule roundRobinSortVideos_hd)
next
  assume "distinct (map uid current) \<and> mset target = mset current \<and> hd target = hd current \<and>
    (\<forall>v \<in> set current. uid v \<noteq> - 1)"
  then show "\<exists>context' out.
         sortCytube (context\<lparr>VideoQueue := current\<rparr>) target = Inr (context', out) \<and>
         apply_moves (moves_of out) current = Some target"
    using sortCytube_diff_correct [of current target "context"] by blast
next
  assume h: "distinct (map uid (VideoQueue context)) \<and>
    (\<forall>v \<in> set (VideoQueue context). uid v \<noteq> - 1)"
  obtain sorted' where rr: "roundRobinSortVideos context = Inr sorted'"
    and ms: "mset sorted' = mset (VideoQueue context)"
    using roundRobinSortVideos_mset by blast
  have hd: "hd sorted' = hd (VideoQueue context)"
  proof (cases "VideoQueue context = []")
    case True
    then show ?thesis using ms by simp
  next
    case False
    then show ?thesis using roundRobinSortVideos_hd [of "context"] rr by auto
  qed
  have c: "context\<lparr>VideoQueue := VideoQueue context\<rparr> = context" by simp
  obtain context' out where
    "sortCytube context sorted' = Inr (context', out)" "VideoQueue context' = sorted'"
    "apply_moves (moves_of out) (VideoQueue context) = Some sorted'"
    using sortCytube_diff_correct [of "VideoQueue context" sorted' "context"] h ms hd
    unfolding c by blast
  then show "\<exists>context' out.
         resort context = Inr (context', out) \<and>
         roundRobinSortVideos context = Inr (VideoQueue context') \<and>
         apply_moves (moves_of out) (VideoQueue context) = Some (VideoQueue context')"
    using rr by (intro exI [of _ context'] exI [of _ out]) (simp add: resort_def)
qed

theorem sortCytube_correct_on_pipeline_witness:
  "VideoQueue (mkContext [mkItem 1 ''u1'', mkItem 3 ''u1'', mkItem 2 ''u2''] True) \<noteq> [] \<and>
   distinct (map uid (VideoQueue (mkContext [mkItem 1 ''u1'', mkItem 3 ''u1'', mkItem 2 ''u2''] True))) \<and>
   - 1 \<notin> uid ` set (VideoQueue (mkContext [mkItem 1 ''u1'', mkItem 3 ''u1'', mkItem 2 ''u2''] True)) \<and>
   (\<exists>sorted'.
      roundRobinSortVideos (mkContext [mkItem 1 ''u1'', mkItem 3 ''u1'', mkItem 2 ''u2''] True) =
        Inr sorted' \<and>
      hd sorted' = mkItem 1 ''u1'') \<and>
   (\<exists>context' out.
      resort (mkContext [mkItem 1 ''u1'', mkItem 3 ''u1'', mkItem 2 ''u2''] True) =
        Inr (context', out) \<and>
      apply_moves (moves_of out) [mkItem 1 ''u1'', mkItem 3 ''u1'', mkItem 2 ''u2''] =
        Some (VideoQueue context'))"
proof -
  let ?c = "mkContext [mkItem 1 ''u1'', mkItem 3 ''u1'', mkItem 2 ''u2''] True"
  have q: "VideoQueue ?c = [mkItem 1 ''u1'', mkItem 3 ''u1'', mkItem 2 ''u2'']"
    by (simp add: mkContext_def)
  have ne: "VideoQueue ?c \<noteq> []" by (simp add: mkContext_def)
  have d: "distinct (map uid (VideoQueue ?c)) \<and> (\<forall>v \<in> set (VideoQueue ?c). uid v \<noteq> - 1)"
    by (simp add: mkContext_def mkItem_def)
  note inst = sortCytube_correct_on_pipeline [of ?c]
  have a: "\<exists>sorted'. roundRobinSortVideos ?c = Inr sorted' \<and> hd sorted' = mkItem 1 ''u1''"
    using inst [THEN conjunct1, THEN mp, OF ne] unfolding q by auto
  have b: "\<exists>context' out. resort ?c = Inr (context', out) \<and>
      apply_moves (moves_of out) [mkItem 1 ''u1'', mkItem 3 ''u1'', mkItem 2 ''u2''] =
        Some (VideoQueue context')"
    using inst [THEN conjunct2, THEN conjunct2, THEN mp, OF d] unfolding q by blast
  have n: "- 1 \<notin> uid ` set (VideoQueue ?c)"
    by (simp add: mkContext_def mkItem_def)
  from ne d n a b show ?thesis by blast
qed

text \<open>
  C9 as stated fails, and on a pair the handlers produce. The queue holds uids
  5, -1, 6, 7, 8 of submitters a, b, b, a, c; its round-robin order is 5, -1, 8, 7, 6,
  with the same first item. \<open>sortCytube\<close> emits the one command "6 after 7", which turns
  the queue into 5, -1, 7, 6, 8.
\<close>

theorem sortCytube_minus_one_counterexample:
  "distinct (map uid [mkItem 5 ''a'', mkItem (- 1) ''b'', mkItem 6 ''b'', mkItem 7 ''a'', mkItem 8 ''c'']) \<and>
   roundRobinSortVideos
       (mkContext [mkItem 5 ''a'', mkItem (- 1) ''b'', mkItem 6 ''b'', mkItem 7 ''a'', mkItem 8 ''c''] False) =
     Inr [mkItem 5 ''a'', mkItem (- 1) ''b'', mkItem 8 ''c'', mkItem 7 ''a'', mkItem 6 ''b''] \<and>
   mset [mkItem 5 ''a'', mkItem (- 1) ''b'', mkItem 8 ''c'', mkItem 7 ''a'', mkItem 6 ''b''] =
     mset [mkItem 5 ''a'', mkItem (- 1) ''b'', mkItem 6 ''b'', mkItem 7 ''a'', mkItem 8 ''c''] \<and>
   sortCytube
       (mkContext [mkItem 5 ''a'', mkItem (- 1) ''b'', mkItem 6 ''b'', mkItem 7 ''a'', mkItem 8 ''c''] False)
       [mkItem 5 ''a'', mkItem (- 1) ''b'', mkItem 8 ''c'', mkItem 7 ''a'', mkItem 6 ''b''] =
     Inr (mkContext [mkItem 5 ''a'', mkItem (- 1) ''b'', mkItem 8 ''c'', mkItem 7 ''a'', mkItem 6 ''b''] False,
          [EmitMoveMedia 6 7]) \<and>
   apply_moves (moves_of [EmitMoveMedia 6 7])
       [mkItem 5 ''a'', mkItem (- 1) ''b'', mkItem 6 ''b'', mkItem 7 ''a'', mkItem 8 ''c''] =
     Some [mkItem 5 ''a'', mkItem (- 1) ''b'', mkItem 7 ''a'', mkItem 6 ''b'', mkItem 8 ''c''] \<and>
   [mkItem 5 ''a'', mkItem (- 1) ''b'', mkItem 7 ''a'', mkItem 6 ''b'', mkItem 8 ''c''] \<noteq>
     [mkItem 5 ''a'', mkItem (- 1) ''b'', mkItem 8 ''c'', mkItem 7 ''a'', mkItem 6 ''b'']"
  by (simp add: roundRobinSortVideos_def initUserMap_def maxVideos_of_def sortCytube_def
        relocate_def splice_def recordRef_def mkContext_def mkItem_def Let_def)

end
